theory Spec2Isabelle
  imports Complex_Main "HOL-Library.Product_Lexorder" "HOL-Library.Log_Nat"
begin

section \<open>The hybrid circuit partitioner of partitioner.py\<close>

text \<open>
  A shallow embedding of \<^verbatim>\<open>src/partition_P1/partitioner.py\<close>. The Python names are kept; a
  leading underscore is dropped (\<^verbatim>\<open>_calculate_cut_size\<close> is \<open>calculate_cut_size\<close>).

  \<^item> A \<^verbatim>\<open>networkx.DiGraph\<close> is a record of its node list (insertion order) and its list of
    directed edges (the order of \<^verbatim>\<open>graph.edges()\<close>). A DiGraph holds every node once, every
    ordered pair at most once, and both endpoints of an edge are nodes: \<open>wf_graph\<close>.
    Self-loops are allowed, as in networkx.
  \<^item> A Python set of node ids is an \<open>'a set\<close>; the list of partitions is an \<open>'a set list\<close>;
    the dict \<^verbatim>\<open>node_to_partition\<close> is a map \<open>'a \<rightharpoonup> nat\<close>.
  \<^item> A raised exception (ZeroDivisionError, KeyError, IndexError, NetworkXError, an
    exception of the clustering) is the result \<open>None\<close>; a normal return is \<open>Some\<close>.
  \<^item> What the file takes from libraries and from the runtime is a parameter, the record
    \<open>externals\<close>: the labels of scikit-learn's spectral clustering, or its exception, the
    bisection of networkx's Kernighan-Lin, the order in which Python iterates over a set,
    and the rounding of float arithmetic.
  \<^item> \<^verbatim>\<open>io_balance_alpha\<close> is a finite float, a real whose value a double holds. A gain is
    the real value of the float that Python computes: the exact result of each float
    operation, rounded (\<open>to_float\<close>). Integers are unbounded in Python and here.
  \<^item> The \<^verbatim>\<open>print\<close> calls are left out.
\<close>

subsection \<open>Graphs\<close>

record 'a graph =
  nodes :: "'a list"
  edges :: "('a \<times> 'a) list"

definition wf_graph :: "'a graph \<Rightarrow> bool" where
  "wf_graph g \<longleftrightarrow>
     distinct (nodes g) \<and> distinct (edges g) \<and>
     fst ` set (edges g) \<subseteq> set (nodes g) \<and> snd ` set (edges g) \<subseteq> set (nodes g)"

definition number_of_nodes :: "'a graph \<Rightarrow> nat" where
  "number_of_nodes g = length (nodes g)"

definition has_edge :: "'a graph \<Rightarrow> 'a \<Rightarrow> 'a \<Rightarrow> bool" where
  "has_edge g u v \<longleftrightarrow> (u, v) \<in> set (edges g)"

definition predecessors :: "'a graph \<Rightarrow> 'a \<Rightarrow> 'a list" where
  "predecessors g n = map fst (filter (\<lambda>e. snd e = n) (edges g))"

definition successors :: "'a graph \<Rightarrow> 'a \<Rightarrow> 'a list" where
  "successors g n = map snd (filter (\<lambda>e. fst e = n) (edges g))"

text \<open>\<^verbatim>\<open>nx.all_neighbors\<close> chains the predecessors and the successors: a neighbour joined
  by edges in both directions, and the node itself under a self-loop, comes twice.\<close>

definition all_neighbors :: "'a graph \<Rightarrow> 'a \<Rightarrow> 'a list" where
  "all_neighbors g n = predecessors g n @ successors g n"

text \<open>\<^verbatim>\<open>graph.subgraph(ns)\<close>: the nodes of \<open>ns\<close> that the graph has, and the edges among
  them. (\<^verbatim>\<open>to_undirected()\<close> is left to the consumer, which ignores the direction.)\<close>

definition subgraph :: "'a graph \<Rightarrow> 'a list \<Rightarrow> 'a graph" where
  "subgraph g ns =
     \<lparr>nodes = filter (\<lambda>n. n \<in> set ns) (nodes g),
      edges = filter (\<lambda>e. fst e \<in> set ns \<and> snd e \<in> set ns) (edges g)\<rparr>"

subsection \<open>Libraries and runtime\<close>

text \<open>
  \<^item> \<open>fit_predict ext g k\<close>: the labels of
    \<^verbatim>\<open>SpectralClustering(n_clusters=k, ..., random_state=42).fit_predict(adj_matrix)\<close>,
    one per node in the order of the node list, or \<open>None\<close> when the call raises. The
    file calls it without a guard (lines 125 to 131), so its exception is the
    partitioner's.
  \<^item> \<open>kernighan_lin_bisection ext sub max_iter\<close>: the two sets of
    \<^verbatim>\<open>nx.community.kernighan_lin_bisection(subgraph, max_iter=kl_max_iter, seed=42)\<close>.
  \<^item> \<open>iter_pairs\<close>, \<open>iter_nodes\<close>, \<open>iter_parts\<close>: the order in which Python iterates
    over a set of index pairs, of node ids and of partition indices. Python fixes no
    order; for strings it changes from one process to the next (hash randomisation).
  \<^item> \<open>inexact\<close>: the rounding of Python's float arithmetic (IEEE 754 doubles), for a
    value that a double may not hold exactly.
\<close>

record 'a externals =
  fit_predict :: "'a graph \<Rightarrow> nat \<Rightarrow> nat list option"
  kernighan_lin_bisection :: "'a graph \<Rightarrow> int \<Rightarrow> 'a set \<times> 'a set"
  iter_pairs :: "(nat \<times> nat) set \<Rightarrow> (nat \<times> nat) list"
  iter_nodes :: "'a set \<Rightarrow> 'a list"
  iter_parts :: "nat set \<Rightarrow> nat list"
  inexact :: "real \<Rightarrow> real"

text \<open>Iterating over a finite set yields each of its elements once.\<close>

definition iterates :: "('b set \<Rightarrow> 'b list) \<Rightarrow> bool" where
  "iterates it \<longleftrightarrow> (\<forall>S. finite S \<longrightarrow> set (it S) = S \<and> distinct (it S))"

definition valid_iteration :: "'a externals \<Rightarrow> bool" where
  "valid_iteration ext \<longleftrightarrow>
     iterates (iter_pairs ext) \<and> iterates (iter_nodes ext) \<and> iterates (iter_parts ext)"

text \<open>What the file relies on from the two library calls on the graph \<open>g\<close>: when the
  clustering returns, it returns one label below \<open>k\<close> per node; the bisection returns two
  disjoint sets that cover the nodes of the subgraph.\<close>

definition labels_contract :: "'a externals \<Rightarrow> 'a graph \<Rightarrow> bool" where
  "labels_contract ext g \<longleftrightarrow>
     (\<forall>k labels. fit_predict ext g k = Some labels \<longrightarrow>
        length labels = length (nodes g) \<and> (\<forall>l \<in> set labels. l < k))"

definition kl_contract :: "'a externals \<Rightarrow> 'a graph \<Rightarrow> bool" where
  "kl_contract ext g \<longleftrightarrow>
     (\<forall>ns max_iter.
        fst (kernighan_lin_bisection ext (subgraph g ns) max_iter) \<union>
        snd (kernighan_lin_bisection ext (subgraph g ns) max_iter) = set (nodes (subgraph g ns)) \<and>
        fst (kernighan_lin_bisection ext (subgraph g ns) max_iter) \<inter>
        snd (kernighan_lin_bisection ext (subgraph g ns) max_iter) = {})"

subsection \<open>Cut size, I/O counts, adjacent partitions\<close>

text \<open>The dict comprehension
  \<^verbatim>\<open>{node: i for i, p in enumerate(partitions) for node in p}\<close>: a later partition
  overwrites an earlier one.\<close>

fun assign_nodes :: "nat \<Rightarrow> 'a set list \<Rightarrow> ('a \<rightharpoonup> nat) \<Rightarrow> ('a \<rightharpoonup> nat)" where
  "assign_nodes i [] m = m"
| "assign_nodes i (p # ps) m = assign_nodes (Suc i) ps (\<lambda>n. if n \<in> p then Some i else m n)"

definition node_to_partition_of :: "'a set list \<Rightarrow> ('a \<rightharpoonup> nat)" where
  "node_to_partition_of parts = assign_nodes 0 parts Map.empty"

text \<open>The number of edges whose endpoints the map sends to different values
  (\<^verbatim>\<open>.get\<close> gives \<open>None\<close> for a node without partition).\<close>

definition cut_of :: "'a graph \<Rightarrow> ('a \<rightharpoonup> nat) \<Rightarrow> nat" where
  "cut_of g m = length (filter (\<lambda>e. m (fst e) \<noteq> m (snd e)) (edges g))"

definition calculate_cut_size :: "'a graph \<Rightarrow> 'a set list \<Rightarrow> nat" where
  "calculate_cut_size g parts = cut_of g (node_to_partition_of parts)"

text \<open>\<^verbatim>\<open>graph.predecessors(node)\<close> raises NetworkXError for a node that is not in the graph.\<close>

definition get_io_for_partition :: "'a graph \<Rightarrow> 'a set \<Rightarrow> (nat \<times> nat) option" where
  "get_io_for_partition g partition_nodes =
     (if partition_nodes \<subseteq> set (nodes g) then
        Some (card (\<Union>node\<in>partition_nodes.
                      {pred \<in> set (predecessors g node). pred \<notin> partition_nodes}),
              card (\<Union>node\<in>partition_nodes.
                      {succ \<in> set (successors g node). succ \<notin> partition_nodes}))
      else None)"

definition is_adjacent :: "'a graph \<Rightarrow> 'a set \<Rightarrow> 'a set \<Rightarrow> bool" where
  "is_adjacent g part_A part_B \<longleftrightarrow>
     (\<exists>u\<in>part_A. \<exists>v\<in>part_B. has_edge g u v \<or> has_edge g v u)"

text \<open>The set \<^verbatim>\<open>adj_pairs\<close> that the two nested loops over \<^verbatim>\<open>enumerate(partitions)\<close> build.\<close>

definition adj_pairs :: "'a graph \<Rightarrow> 'a set list \<Rightarrow> (nat \<times> nat) set" where
  "adj_pairs g parts =
     set (concat (map (\<lambda>(i, part_A).
            concat (map (\<lambda>(j, part_B).
              if i \<ge> j then [] else if is_adjacent g part_A part_B then [(i, j)] else [])
              (enumerate 0 parts)))
          (enumerate 0 parts)))"

definition find_adjacent_partitions ::
  "'a externals \<Rightarrow> 'a graph \<Rightarrow> 'a set list \<Rightarrow> (nat \<times> nat) list" where
  "find_adjacent_partitions ext g parts = iter_pairs ext (adj_pairs g parts)"

text \<open>The work of \<^verbatim>\<open>_find_adjacent_partitions\<close>: how many pairs \<open>(u, v)\<close> of
  \<^verbatim>\<open>itertools.product(part_A, part_B)\<close> the \<^verbatim>\<open>any(...)\<close> consumes (it stops at the first
  adjacent pair), summed over all \<open>i < j\<close>.\<close>

definition any_probes :: "'a graph \<Rightarrow> ('a \<times> 'a) list \<Rightarrow> nat" where
  "any_probes g uvs =
     (let miss = takeWhile (\<lambda>(u, v). \<not> (has_edge g u v \<or> has_edge g v u)) uvs
      in if length miss < length uvs then Suc (length miss) else length miss)"

definition find_adjacent_probes :: "'a externals \<Rightarrow> 'a graph \<Rightarrow> 'a set list \<Rightarrow> nat" where
  "find_adjacent_probes ext g parts =
     sum_list (map (\<lambda>(i, part_A).
        sum_list (map (\<lambda>(j, part_B).
          if i \<ge> j then 0
          else any_probes g (List.product (iter_nodes ext part_A) (iter_nodes ext part_B)))
          (enumerate 0 parts)))
        (enumerate 0 parts))"

text \<open>The adjacency finder in the words of the specification: one pass over the edges,
  looking up the partition index of each endpoint and recording the unordered pair when
  the two indices differ.\<close>

definition spec_single_pass_adjacency :: "'a graph \<Rightarrow> 'a set list \<Rightarrow> (nat \<times> nat) set" where
  "spec_single_pass_adjacency g parts =
     (let m = node_to_partition_of parts in
      set (concat (map (\<lambda>(u, v).
        case (m u, m v) of
          (Some i, Some j) \<Rightarrow> if i \<noteq> j then [(min i j, max i j)] else []
        | _ \<Rightarrow> [])
        (edges g))))"

subsection \<open>Phase 1 and 2: coarse partitions and pairwise refinement\<close>

text \<open>\<^verbatim>\<open>for i, node in enumerate(node_list): partitions[labels[i]].add(node)\<close>;
  IndexError when the labels run out or a label is not an index of the list.\<close>

fun assign_labels :: "'a list \<Rightarrow> nat list \<Rightarrow> 'a set list \<Rightarrow> 'a set list option" where
  "assign_labels [] ls parts = Some parts"
| "assign_labels (n # ns) [] parts = None"
| "assign_labels (n # ns) (l # ls) parts =
     (if l < length parts then assign_labels ns ls (parts[l := insert n (parts ! l)])
      else None)"

text \<open>\<^verbatim>\<open>for i, j in adjacent_pairs\<close>: the Kernighan-Lin bisection of the subgraph on
  \<^verbatim>\<open>list(part_A.union(part_B))\<close> replaces the partitions \<open>i\<close> and \<open>j\<close>.\<close>

fun refine_pairs ::
  "'a externals \<Rightarrow> 'a graph \<Rightarrow> int \<Rightarrow> (nat \<times> nat) list \<Rightarrow> 'a set list \<Rightarrow> 'a set list option"
where
  "refine_pairs ext g kl_max_iter [] parts = Some parts"
| "refine_pairs ext g kl_max_iter ((i, j) # ps) parts =
     (if i < length parts \<and> j < length parts then
        let part_A = parts ! i;
            part_B = parts ! j;
            subgraph_nodes = iter_nodes ext (part_A \<union> part_B);
            refined = kernighan_lin_bisection ext (subgraph g subgraph_nodes) kl_max_iter
        in refine_pairs ext g kl_max_iter ps ((parts[i := fst refined])[j := snd refined])
      else None)"

subsection \<open>Phase 3: I/O balancing\<close>

record 'a pstate =
  partitions :: "'a set list"
  node_to_partition :: "'a \<rightharpoonup> nat"

definition boundary_nodes :: "'a graph \<Rightarrow> ('a \<rightharpoonup> nat) \<Rightarrow> 'a set" where
  "boundary_nodes g m =
     (\<Union>e\<in>set (edges g). if m (fst e) \<noteq> m (snd e) then {fst e, snd e} else {})"

definition neighbor_partitions :: "'a graph \<Rightarrow> ('a \<rightharpoonup> nat) \<Rightarrow> 'a \<Rightarrow> nat set" where
  "neighbor_partitions g m node = (\<Union>neighbor\<in>set (all_neighbors g node). set_option (m neighbor))"

definition cut_gain :: "'a graph \<Rightarrow> ('a \<rightharpoonup> nat) \<Rightarrow> 'a \<Rightarrow> nat \<Rightarrow> nat \<Rightarrow> int" where
  "cut_gain g m node current_part_idx target_part_idx =
     sum_list (map (\<lambda>neighbor.
        case m neighbor of
          None \<Rightarrow> 0
        | Some neighbor_part_idx \<Rightarrow>
            if neighbor_part_idx = current_part_idx then - 1
            else if neighbor_part_idx = target_part_idx then 1 else 0)
        (all_neighbors g node))"

text \<open>\<^verbatim>\<open>abs(i - o)\<close> of one partition.\<close>

definition io_imbalance :: "'a graph \<Rightarrow> 'a set \<Rightarrow> int option" where
  "io_imbalance g ns = map_option (\<lambda>(num_in, num_out). \<bar>int num_in - int num_out\<bar>) (get_io_for_partition g ns)"

text \<open>The loop over \<^verbatim>\<open>{current_part_idx, target_part_idx}\<close> (two different indices) and
  \<^verbatim>\<open>io_gain = io_before_move - io_after_move\<close>.\<close>

definition io_gain :: "'a graph \<Rightarrow> 'a set list \<Rightarrow> 'a \<Rightarrow> nat \<Rightarrow> nat \<Rightarrow> int option" where
  "io_gain g parts node current_part_idx target_part_idx =
     (if current_part_idx < length parts \<and> target_part_idx < length parts then
        case (io_imbalance g (parts ! current_part_idx),
              io_imbalance g (parts ! current_part_idx - {node}),
              io_imbalance g (parts ! target_part_idx),
              io_imbalance g (parts ! target_part_idx \<union> {node})) of
          (Some before_c, Some after_c, Some before_t, Some after_t) \<Rightarrow>
            Some ((before_c + before_t) - (after_c + after_t))
        | _ \<Rightarrow> None
      else None)"

text \<open>The value of a float operation whose exact result is \<open>x\<close>. A double holds every
  integer up to \<open>2\<^sup>5\<^sup>3\<close> in magnitude, so such a result is exact; any other result is
  rounded, to a value of the same sign or to zero. How it is rounded is left to
  \<open>inexact\<close>. (Where Python overflows to \<^verbatim>\<open>inf\<close>, \<open>inexact\<close> gives a real above every
  double.)\<close>

definition to_float :: "'a externals \<Rightarrow> real \<Rightarrow> real" where
  "to_float ext x =
     (if real_of_int \<lfloor>x\<rfloor> = x \<and> \<bar>x\<bar> \<le> 2 ^ 53 then x else sgn x * \<bar>inexact ext x\<bar>)"

text \<open>Line 236, \<^verbatim>\<open>total_gain = cut_gain + io_balance_alpha * io_gain\<close>, with two
  \<^verbatim>\<open>int\<close> operands and a \<^verbatim>\<open>float\<close> weight: each \<^verbatim>\<open>int\<close> is converted to a float, the
  product is rounded, and the sum is rounded.\<close>

definition float_total :: "'a externals \<Rightarrow> int \<Rightarrow> real \<Rightarrow> int \<Rightarrow> real" where
  "float_total ext cut_g io_balance_alpha io_g =
     to_float ext (to_float ext (real_of_int cut_g) +
                   to_float ext (io_balance_alpha * to_float ext (real_of_int io_g)))"

definition total_gain ::
  "'a externals \<Rightarrow> 'a graph \<Rightarrow> real \<Rightarrow> 'a pstate \<Rightarrow> 'a \<Rightarrow> nat \<Rightarrow> nat \<Rightarrow> real option" where
  "total_gain ext g io_balance_alpha st node current_part_idx target_part_idx =
     map_option
       (float_total ext (cut_gain g (node_to_partition st) node current_part_idx target_part_idx)
          io_balance_alpha)
       (io_gain g (partitions st) node current_part_idx target_part_idx)"

text \<open>\<^verbatim>\<open>best_move\<close>: \<open>None\<close> is the initial dict, whose \<^verbatim>\<open>cost_improvement\<close> is
  \<^verbatim>\<open>-np.inf\<close>; \<open>Some (node, target_partition, cost_improvement)\<close> after that.\<close>

type_synonym 'a move = "'a \<times> nat \<times> real"

fun improves :: "real \<Rightarrow> 'a move option \<Rightarrow> bool" where
  "improves x None = True"
| "improves x (Some (n, t, y)) = (x > y)"

text \<open>A loop whose body may raise: the first \<open>None\<close> ends it.\<close>

fun fold_opt :: "('b \<Rightarrow> 'c \<Rightarrow> 'c option) \<Rightarrow> 'b list \<Rightarrow> 'c \<Rightarrow> 'c option" where
  "fold_opt f [] a = Some a"
| "fold_opt f (x # xs) a = (case f x a of None \<Rightarrow> None | Some a' \<Rightarrow> fold_opt f xs a')"

text \<open>The body of \<^verbatim>\<open>for target_part_idx in neighbor_partitions\<close>.\<close>

definition consider_target ::
  "'a externals \<Rightarrow> 'a graph \<Rightarrow> real \<Rightarrow> 'a pstate \<Rightarrow> 'a \<Rightarrow> nat \<Rightarrow> nat \<Rightarrow> 'a move option \<Rightarrow> 'a move option option"
where
  "consider_target ext g io_balance_alpha st node current_part_idx target_part_idx best_move =
     (if target_part_idx = current_part_idx then Some best_move
      else case total_gain ext g io_balance_alpha st node current_part_idx target_part_idx of
             None \<Rightarrow> None
           | Some gain \<Rightarrow>
               Some (if improves gain best_move then Some (node, target_part_idx, gain)
                     else best_move))"

text \<open>The body of \<^verbatim>\<open>for node in boundary_nodes\<close>; \<^verbatim>\<open>node_to_partition[node]\<close> raises
  KeyError for a node without partition.\<close>

definition consider_node ::
  "'a externals \<Rightarrow> 'a graph \<Rightarrow> real \<Rightarrow> 'a pstate \<Rightarrow> 'a \<Rightarrow> 'a move option \<Rightarrow> 'a move option option"
where
  "consider_node ext g io_balance_alpha st node best_move =
     (case node_to_partition st node of
        None \<Rightarrow> None
      | Some current_part_idx \<Rightarrow>
          fold_opt (consider_target ext g io_balance_alpha st node current_part_idx)
            (iter_parts ext (neighbor_partitions g (node_to_partition st) node)) best_move)"

definition find_best_move ::
  "'a externals \<Rightarrow> 'a graph \<Rightarrow> real \<Rightarrow> 'a pstate \<Rightarrow> 'a move option option" where
  "find_best_move ext g io_balance_alpha st =
     fold_opt (consider_node ext g io_balance_alpha st)
       (iter_nodes ext (boundary_nodes g (node_to_partition st))) None"

text \<open>Lines 247 to 253: \<^verbatim>\<open>remove\<close> raises KeyError when the node is not in its partition.\<close>

definition apply_move :: "'a pstate \<Rightarrow> 'a \<Rightarrow> nat \<Rightarrow> 'a pstate option" where
  "apply_move st node_to_move target_idx =
     (case node_to_partition st node_to_move of
        None \<Rightarrow> None
      | Some current_idx \<Rightarrow>
          if current_idx < length (partitions st) \<and> target_idx < length (partitions st) \<and>
             node_to_move \<in> partitions st ! current_idx
          then
            let removed = (partitions st)[current_idx := partitions st ! current_idx - {node_to_move}];
                added = removed[target_idx := insert node_to_move (removed ! target_idx)]
            in Some \<lparr>partitions = added,
                     node_to_partition = (node_to_partition st)(node_to_move \<mapsto> target_idx)\<rparr>
          else None)"

text \<open>One pass of the loop: it ends the loop at line 186 (\<open>NoBoundary\<close>) or at line 256
  (\<open>NoImprovement\<close>), or it applies one move.\<close>

datatype 'a pass_outcome = NoBoundary | NoImprovement | Moved "'a pstate"

definition io_pass ::
  "'a externals \<Rightarrow> 'a graph \<Rightarrow> real \<Rightarrow> 'a pstate \<Rightarrow> 'a pass_outcome option" where
  "io_pass ext g io_balance_alpha st =
     (if boundary_nodes g (node_to_partition st) = {} then Some NoBoundary
      else case find_best_move ext g io_balance_alpha st of
             None \<Rightarrow> None
           | Some None \<Rightarrow> Some NoImprovement
           | Some (Some (node, target_partition, cost_improvement)) \<Rightarrow>
               if cost_improvement > 0
               then map_option Moved (apply_move st node target_partition)
               else Some NoImprovement)"

text \<open>The loop \<^verbatim>\<open>for iteration in range(MAX_IO_BALANCE_ITERATIONS)\<close>, by recursion on the
  iterations that are left. Besides the final state the result records how the loop ran:
  the passes executed, the moves applied, whether a \<^verbatim>\<open>break\<close> ended it, and the state
  after each applied move.\<close>

record 'a io_run =
  final :: "'a pstate"
  passes :: nat
  moves :: nat
  stopped :: bool
  visited :: "'a pstate list"

fun io_balance_loop ::
  "'a externals \<Rightarrow> 'a graph \<Rightarrow> real \<Rightarrow> nat \<Rightarrow> 'a pstate \<Rightarrow> 'a io_run option" where
  "io_balance_loop ext g io_balance_alpha 0 st =
     Some \<lparr>final = st, passes = 0, moves = 0, stopped = False, visited = []\<rparr>"
| "io_balance_loop ext g io_balance_alpha (Suc left) st =
     (case io_pass ext g io_balance_alpha st of
        None \<Rightarrow> None
      | Some NoBoundary \<Rightarrow>
          Some \<lparr>final = st, passes = 1, moves = 0, stopped = True, visited = []\<rparr>
      | Some NoImprovement \<Rightarrow>
          Some \<lparr>final = st, passes = 1, moves = 0, stopped = True, visited = []\<rparr>
      | Some (Moved st') \<Rightarrow>
          map_option (\<lambda>r. r\<lparr>passes := Suc (passes r), moves := Suc (moves r),
                            visited := st' # visited r\<rparr>)
            (io_balance_loop ext g io_balance_alpha left st'))"

text \<open>Lines 171 to 256: the map is built from the partitions, then the loop runs for at
  most \<^verbatim>\<open>graph.number_of_nodes()\<close> passes.\<close>

definition io_balancing ::
  "'a externals \<Rightarrow> 'a graph \<Rightarrow> real \<Rightarrow> 'a set list \<Rightarrow> 'a io_run option" where
  "io_balancing ext g io_balance_alpha parts =
     io_balance_loop ext g io_balance_alpha (number_of_nodes g)
       \<lparr>partitions = parts, node_to_partition = node_to_partition_of parts\<rparr>"

subsection \<open>The partitioner\<close>

text \<open>\<^verbatim>\<open>k = math.ceil(num_nodes / target_partition_size)\<close>; the division raises
  ZeroDivisionError for a target size of zero. (The quotient is a float in Python and the
  exact quotient here; the two ceilings agree for every graph that fits in memory.)\<close>

definition partition_count :: "'a graph \<Rightarrow> int \<Rightarrow> int option" where
  "partition_count g target_partition_size =
     (if target_partition_size = 0 then None
      else Some \<lceil>real (number_of_nodes g) / real_of_int target_partition_size\<rceil>)"

definition hybrid_partitioner ::
  "'a externals \<Rightarrow> 'a graph \<Rightarrow> int \<Rightarrow> int \<Rightarrow> real \<Rightarrow> 'a set list option" where
  "hybrid_partitioner ext g target_partition_size kl_max_iter io_balance_alpha =
     (if number_of_nodes g = 0 then Some []
      else case partition_count g target_partition_size of
        None \<Rightarrow> None
      | Some k \<Rightarrow>
          if k < 2 then Some [set (nodes g)]
          else
            (case fit_predict ext g (nat k) of
               None \<Rightarrow> None
             | Some labels \<Rightarrow>
                 (case assign_labels (nodes g) labels (replicate (nat k) {}) of
                    None \<Rightarrow> None
                  | Some coarse \<Rightarrow>
                      (case refine_pairs ext g kl_max_iter
                              (find_adjacent_partitions ext g coarse) coarse of
                         None \<Rightarrow> None
                       | Some refined \<Rightarrow>
                           (case io_balancing ext g io_balance_alpha refined of
                              None \<Rightarrow> None
                            | Some run \<Rightarrow>
                                Some (filter (\<lambda>p. p \<noteq> {}) (partitions (final run))))))))"

subsection \<open>Predicates of the claims\<close>

text \<open>No two partitions of the list share a node.\<close>

definition pairwise_disjoint :: "'a set list \<Rightarrow> bool" where
  "pairwise_disjoint parts \<longleftrightarrow> sorted_wrt (\<lambda>A B. A \<inter> B = {}) parts"

text \<open>The map and the list agree: \<open>n\<close> is mapped to \<open>i\<close> exactly when \<open>n\<close> is a member of
  partition \<open>i\<close>.\<close>

definition consistent :: "'a pstate \<Rightarrow> bool" where
  "consistent st \<longleftrightarrow>
     (\<forall>n i. node_to_partition st n = Some i \<longleftrightarrow>
            i < length (partitions st) \<and> n \<in> partitions st ! i)"

text \<open>The partitions are pairwise disjoint and cover the nodes of the graph.\<close>

definition is_partition_of :: "'a graph \<Rightarrow> 'a set list \<Rightarrow> bool" where
  "is_partition_of g parts \<longleftrightarrow> pairwise_disjoint parts \<and> \<Union> (set parts) = set (nodes g)"

text \<open>The clustering call of the partitioner returns, when the partitioner gets that far.\<close>

definition clustering_returns :: "'a externals \<Rightarrow> 'a graph \<Rightarrow> int \<Rightarrow> bool" where
  "clustering_returns ext g target_partition_size \<longleftrightarrow>
     (\<forall>k. partition_count g target_partition_size = Some k \<and> 2 \<le> k \<longrightarrow>
          (\<exists>labels. fit_predict ext g (nat k) = Some labels))"

text \<open>\<open>gain_at_least best x\<close>: the best move found so far has a gain of \<open>x\<close> or more.\<close>

fun gain_at_least :: "'a move option \<Rightarrow> real \<Rightarrow> bool" where
  "gain_at_least None x = False"
| "gain_at_least (Some (n, t, y)) x = (x \<le> y)"

text \<open>A candidate move of the pass: a boundary node \<open>node\<close> of partition \<open>c\<close> and a
  partition \<open>t\<close> other than \<open>c\<close> that holds a neighbour of \<open>node\<close>.\<close>

definition candidate_move :: "'a graph \<Rightarrow> 'a pstate \<Rightarrow> 'a \<Rightarrow> nat \<Rightarrow> nat \<Rightarrow> bool" where
  "candidate_move g st node c t \<longleftrightarrow>
     node \<in> boundary_nodes g (node_to_partition st) \<and>
     node_to_partition st node = Some c \<and>
     t \<in> neighbor_partitions g (node_to_partition st) node \<and> t \<noteq> c"

text \<open>The best move is a candidate move, recorded with its total gain.\<close>

definition sound_best ::
  "'a externals \<Rightarrow> 'a graph \<Rightarrow> real \<Rightarrow> 'a pstate \<Rightarrow> 'a move option \<Rightarrow> bool" where
  "sound_best ext g \<alpha> st best \<longleftrightarrow>
     (\<forall>node t y. best = Some (node, t, y) \<longrightarrow>
        (\<exists>c. candidate_move g st node c t \<and> total_gain ext g \<alpha> st node c t = Some y))"

subsection \<open>Example inputs\<close>

text \<open>Rounding to the nearest double, ties to the even significand: a double has 53
  significant bits and a binary exponent of \<open>-1022\<close> at least. (A value beyond the largest
  double is kept, where Python gives \<^verbatim>\<open>inf\<close>.)\<close>

definition round_half_even :: "real \<Rightarrow> int" where
  "round_half_even x =
     (if x - real_of_int \<lfloor>x\<rfloor> < 1 / 2 then \<lfloor>x\<rfloor>
      else if 1 / 2 < x - real_of_int \<lfloor>x\<rfloor> then \<lfloor>x\<rfloor> + 1
      else if even \<lfloor>x\<rfloor> then \<lfloor>x\<rfloor> else \<lfloor>x\<rfloor> + 1)"

text \<open>For \<open>0 < x\<close>, the \<open>e\<close> with \<open>2\<^sup>e \<le> x < 2\<^sup>e\<^sup>+\<^sup>1\<close>.\<close>

definition binary_exponent :: "real \<Rightarrow> int" where
  "binary_exponent x =
     (if 1 \<le> x then int (floorlog 2 (nat \<lfloor>x\<rfloor>)) - 1
      else - int (floorlog 2 (nat (\<lceil>1 / x\<rceil> - 1))))"

definition pow2 :: "int \<Rightarrow> real" where
  "pow2 e = (if 0 \<le> e then 2 ^ nat e else 1 / 2 ^ nat (- e))"

definition round_double :: "real \<Rightarrow> real" where
  "round_double x =
     (if x = 0 then 0
      else real_of_int (round_half_even (x / pow2 (max (binary_exponent \<bar>x\<bar>) (- 1022) - 52))) *
           pow2 (max (binary_exponent \<bar>x\<bar>) (- 1022) - 52))"

text \<open>Stand-ins for the libraries on graphs whose nodes are numbers: the label of a node
  is its number modulo \<open>k\<close>, the bisection puts the odd nodes on one side and the even nodes
  on the other, a set is iterated in ascending order, and a float is rounded to the
  nearest double. The clustering raises when it is asked for as many clusters as the graph
  has nodes, or more: the eigen-solver behind the library call refuses that.\<close>

definition example_externals :: "nat externals" where
  "example_externals =
     \<lparr>fit_predict = (\<lambda>g k. if 0 < k \<and> k < length (nodes g) then Some (map (\<lambda>n. n mod k) (nodes g))
                              else None),
      kernighan_lin_bisection = (\<lambda>sub max_iter. (set (filter odd (nodes sub)), set (filter even (nodes sub)))),
      iter_pairs = sorted_list_of_set,
      iter_nodes = sorted_list_of_set,
      iter_parts = sorted_list_of_set,
      inexact = round_double\<rparr>"

text \<open>The same, but a set of node ids is iterated in descending order.\<close>

definition example_externals_desc :: "nat externals" where
  "example_externals_desc = example_externals\<lparr>iter_nodes := rev \<circ> sorted_list_of_set\<rparr>"

definition empty_graph :: "nat graph" where
  "empty_graph = \<lparr>nodes = [], edges = []\<rparr>"

text \<open>One node with a self-loop.\<close>

definition loop_graph :: "nat graph" where
  "loop_graph = \<lparr>nodes = [7], edges = [(7, 7)]\<rparr>"

text \<open>Three nodes, one edge \<open>0 \<rightarrow> 1\<close>; node \<open>2\<close> is isolated.\<close>

definition edge_graph :: "nat graph" where
  "edge_graph = \<lparr>nodes = [0, 1, 2], edges = [(0, 1)]\<rparr>"


text \<open>Four nodes and no edge.\<close>

definition edgeless_graph :: "nat graph" where
  "edgeless_graph = \<lparr>nodes = [0, 1, 2, 3], edges = []\<rparr>"

text \<open>A path \<open>0 \<rightarrow> 1 \<rightarrow> 2 \<rightarrow> 3\<close>.\<close>

definition path_graph :: "nat graph" where
  "path_graph = \<lparr>nodes = [0, 1, 2, 3], edges = [(0, 1), (1, 2), (2, 3)]\<rparr>"

text \<open>Two pairs of nodes, \<open>{1, 3}\<close> and \<open>{0, 2}\<close>, with edges in both directions inside a
  pair and two edges from the second pair to the first. With the two pairs as partitions,
  every candidate move has a cut gain of \<open>-1\<close> and an I/O gain of \<open>3\<close>.\<close>

definition pairs_graph :: "nat graph" where
  "pairs_graph = \<lparr>nodes = [0, 1, 2, 3],
                   edges = [(0, 1), (0, 2), (1, 3), (2, 0), (2, 3), (3, 1)]\<rparr>"

text \<open>The double next to one third and above it, \<^verbatim>\<open>0.33333333333333337\<close>: three times its
  exact value is \<open>1 + 2\<^sup>-\<^sup>5\<^sup>3\<close>, which is rounded to \<open>1\<close>.\<close>

definition third_up :: real where
  "third_up = 3002399751580331 / 2 ^ 53"

section \<open>Properties\<close>

subsection \<open>Degenerate sizes\<close>

lemma partition_count_small:
  assumes "nodes g \<noteq> []" "int (number_of_nodes g) \<le> t"
  shows "\<exists>k. partition_count g t = Some k \<and> k < 2"
proof -
  have n: "0 < number_of_nodes g" using assms(1) by (simp add: number_of_nodes_def)
  then have t: "0 < t" using assms(2) by linarith
  have "real (number_of_nodes g) / real_of_int t \<le> 1"
    using t assms(2) by (simp add: divide_le_eq)
  then have "\<lceil>real (number_of_nodes g) / real_of_int t\<rceil> < 2"
    by (simp add: ceiling_less_iff)
  with t show ?thesis by (simp add: partition_count_def)
qed

lemma partition_count_single:
  assumes "number_of_nodes g = 1" "t \<noteq> 0"
  shows "\<exists>k. partition_count g t = Some k \<and> k < 2"
proof (cases "0 < t")
  case True
  moreover have "nodes g \<noteq> []" using assms(1) by (auto simp: number_of_nodes_def)
  ultimately show ?thesis using partition_count_small[of g t] assms(1) by simp
next
  case False
  then have "t < 0" using assms by simp
  then have "1 / real_of_int t \<le> 1" by (simp add: divide_le_eq)
  then have "\<lceil>1 / real_of_int t\<rceil> < 2" by (simp add: ceiling_less_iff)
  with assms show ?thesis by (simp add: partition_count_def)
qed

lemma edge_single:
  assumes "wf_graph g" "nodes g = [v]" "e \<in> set (edges g)"
  shows "e = (v, v)"
proof -
  have "fst e \<in> set (nodes g)" "snd e \<in> set (nodes g)"
    using assms(1,3) unfolding wf_graph_def by blast+
  then show ?thesis using assms(2) by (simp add: prod_eq_iff)
qed

lemma get_io_single:
  assumes "wf_graph g" "nodes g = [v]"
  shows "get_io_for_partition g {v} = Some (0, 0)"
proof -
  have p: "set (predecessors g v) \<subseteq> {v}"
  proof
    fix x assume "x \<in> set (predecessors g v)"
    then obtain e where e: "e \<in> set (edges g)" "x = fst e"
      unfolding predecessors_def by auto
    from edge_single[OF assms e(1)] e(2) show "x \<in> {v}" by simp
  qed
  have s: "set (successors g v) \<subseteq> {v}"
  proof
    fix x assume "x \<in> set (successors g v)"
    then obtain e where e: "e \<in> set (edges g)" "x = snd e"
      unfolding successors_def by auto
    from edge_single[OF assms e(1)] e(2) show "x \<in> {v}" by simp
  qed
  have p': "{p \<in> set (predecessors g v). p \<noteq> v} = {}" using p by blast
  have s': "{p \<in> set (successors g v). p \<noteq> v} = {}" using s by blast
  show ?thesis unfolding get_io_for_partition_def using assms(2) by (simp add: p' s')
qed

text \<open>
  Claim C7. A graph without nodes yields the empty list. A non-empty graph whose node count
  is at most \<open>target_partition_size\<close> yields exactly one partition, the set of all nodes.
  A graph of one node yields the partition of that node for every target size but \<open>0\<close>
  (where the division raises), and the I/O counts of that partition are \<open>(0, 0)\<close>, also
  when the node has a self-loop.
\<close>

theorem degenerate_size_single_partition:
  "(nodes g = [] \<longrightarrow> hybrid_partitioner ext g t kl_max_iter \<alpha> = Some []) \<and>
   (nodes g \<noteq> [] \<and> int (number_of_nodes g) \<le> t \<longrightarrow>
      hybrid_partitioner ext g t kl_max_iter \<alpha> = Some [set (nodes g)]) \<and>
   (wf_graph g \<and> nodes g = [v] \<and> t \<noteq> 0 \<longrightarrow>
      hybrid_partitioner ext g t kl_max_iter \<alpha> = Some [{v}] \<and>
      get_io_for_partition g {v} = Some (0, 0))"
proof (intro conjI impI)
  assume "nodes g = []"
  then show "hybrid_partitioner ext g t kl_max_iter \<alpha> = Some []"
    by (simp add: hybrid_partitioner_def number_of_nodes_def)
next
  assume a: "nodes g \<noteq> [] \<and> int (number_of_nodes g) \<le> t"
  then obtain k where "partition_count g t = Some k" "k < 2"
    using partition_count_small by blast
  with a show "hybrid_partitioner ext g t kl_max_iter \<alpha> = Some [set (nodes g)]"
    by (simp add: hybrid_partitioner_def number_of_nodes_def)
next
  assume a: "wf_graph g \<and> nodes g = [v] \<and> t \<noteq> 0"
  then obtain k where "partition_count g t = Some k" "k < 2"
    using partition_count_single[of g t] by (auto simp: number_of_nodes_def)
  with a show "hybrid_partitioner ext g t kl_max_iter \<alpha> = Some [{v}]"
    by (simp add: hybrid_partitioner_def number_of_nodes_def)
next
  assume "wf_graph g \<and> nodes g = [v] \<and> t \<noteq> 0"
  then show "get_io_for_partition g {v} = Some (0, 0)" by (simp add: get_io_single)
qed


theorem degenerate_size_single_partition_witness:
  "hybrid_partitioner example_externals empty_graph 3 10 0.1 = Some [] \<and>
   hybrid_partitioner example_externals edge_graph 3 10 0.1 = Some [{0, 1, 2}] \<and>
   hybrid_partitioner example_externals loop_graph 1 10 0.1 = Some [{7}] \<and>
   get_io_for_partition loop_graph {7} = Some (0, 0)"
  using degenerate_size_single_partition [of empty_graph example_externals 3 10 "0.1" 0]
    degenerate_size_single_partition [of edge_graph example_externals 3 10 "0.1" 0]
    degenerate_size_single_partition [of loop_graph example_externals 1 10 "0.1" 7]
  by (simp add: empty_graph_def edge_graph_def loop_graph_def wf_graph_def
      number_of_nodes_def insert_commute)

subsection \<open>The map built from the partitions\<close>

lemma pairwise_disjoint_nth:
  "pairwise_disjoint ps \<Longrightarrow> i < length ps \<Longrightarrow> j < length ps \<Longrightarrow> i \<noteq> j \<Longrightarrow> ps ! i \<inter> ps ! j = {}"
proof -
  assume d: "pairwise_disjoint ps" and ij: "i < length ps" "j < length ps" "i \<noteq> j"
  show ?thesis
  proof (cases "i < j")
    case True
    then show ?thesis using d ij unfolding pairwise_disjoint_def
      by (simp add: sorted_wrt_iff_nth_less)
  next
    case False
    then have "j < i" using ij by simp
    then have "ps ! j \<inter> ps ! i = {}" using d ij unfolding pairwise_disjoint_def
      by (simp add: sorted_wrt_iff_nth_less)
    then show ?thesis by blast
  qed
qed

lemma pairwise_disjointI:
  "(\<And>i j. i < j \<Longrightarrow> j < length ps \<Longrightarrow> ps ! i \<inter> ps ! j = {}) \<Longrightarrow> pairwise_disjoint ps"
  unfolding pairwise_disjoint_def by (simp add: sorted_wrt_iff_nth_less)

lemma assign_nodes_notin:
  "(\<And>p. p \<in> set ps \<Longrightarrow> n \<notin> p) \<Longrightarrow> assign_nodes i ps m n = m n"
  by (induction ps arbitrary: i m) auto

lemma assign_nodes_in:
  "pairwise_disjoint ps \<Longrightarrow> j < length ps \<Longrightarrow> n \<in> ps ! j \<Longrightarrow>
   assign_nodes i ps m n = Some (i + j)"
proof (induction ps arbitrary: i j m)
  case Nil
  then show ?case by simp
next
  case (Cons p ps)
  have d: "pairwise_disjoint ps" and dp: "\<And>q. q \<in> set ps \<Longrightarrow> p \<inter> q = {}"
    using Cons.prems(1) by (simp_all add: pairwise_disjoint_def)
  show ?case
  proof (cases j)
    case 0
    then have "n \<in> p" using Cons.prems by simp
    then have "\<And>q. q \<in> set ps \<Longrightarrow> n \<notin> q" using dp by blast
    then have "assign_nodes (Suc i) ps (\<lambda>x. if x \<in> p then Some i else m x) n
                 = (\<lambda>x. if x \<in> p then Some i else m x) n"
      by (rule assign_nodes_notin)
    then show ?thesis using \<open>n \<in> p\<close> 0 by simp
  next
    case (Suc j')
    then have "j' < length ps" "n \<in> ps ! j'" using Cons.prems by simp_all
    from Cons.IH[OF d this] show ?thesis using Suc by simp
  qed
qed

lemma node_to_partition_of_in:
  "pairwise_disjoint ps \<Longrightarrow> j < length ps \<Longrightarrow> n \<in> ps ! j \<Longrightarrow> node_to_partition_of ps n = Some j"
  unfolding node_to_partition_of_def using assign_nodes_in[of ps j n 0 Map.empty] by simp

lemma node_to_partition_of_notin:
  "(\<And>p. p \<in> set ps \<Longrightarrow> n \<notin> p) \<Longrightarrow> node_to_partition_of ps n = None"
  unfolding node_to_partition_of_def using assign_nodes_notin[of ps n 0 Map.empty] by simp

lemma node_to_partition_of_iff:
  assumes "pairwise_disjoint ps"
  shows "node_to_partition_of ps n = Some i \<longleftrightarrow> i < length ps \<and> n \<in> ps ! i"
proof (cases "\<exists>j<length ps. n \<in> ps ! j")
  case True
  then obtain j where j: "j < length ps" "n \<in> ps ! j" by blast
  then have m: "node_to_partition_of ps n = Some j"
    by (rule node_to_partition_of_in[OF assms])
  show ?thesis
  proof
    assume "node_to_partition_of ps n = Some i"
    then show "i < length ps \<and> n \<in> ps ! i" using m j by simp
  next
    assume "i < length ps \<and> n \<in> ps ! i"
    then show "node_to_partition_of ps n = Some i"
      using node_to_partition_of_in[OF assms, of i n] by simp
  qed
next
  case False
  have "\<And>p. p \<in> set ps \<Longrightarrow> n \<notin> p"
  proof -
    fix p assume "p \<in> set ps"
    then obtain j where "j < length ps" "ps ! j = p" by (auto simp: in_set_conv_nth)
    with False show "n \<notin> p" by blast
  qed
  then have "node_to_partition_of ps n = None" by (rule node_to_partition_of_notin)
  then show ?thesis using False by auto
qed

lemma consistent_initial:
  "pairwise_disjoint ps \<Longrightarrow>
   consistent \<lparr>partitions = ps, node_to_partition = node_to_partition_of ps\<rparr>"
  unfolding consistent_def by (simp add: node_to_partition_of_iff)

lemma consistent_disjoint:
  assumes "consistent st"
  shows "pairwise_disjoint (partitions st)"
proof (rule pairwise_disjointI)
  fix i j assume ij: "i < j" "j < length (partitions st)"
  show "partitions st ! i \<inter> partitions st ! j = {}"
  proof (rule ccontr)
    assume "partitions st ! i \<inter> partitions st ! j \<noteq> {}"
    then obtain n where "n \<in> partitions st ! i" "n \<in> partitions st ! j" by blast
    then have "node_to_partition st n = Some i" "node_to_partition st n = Some j"
      using assms ij unfolding consistent_def by simp_all
    then show False using ij by simp
  qed
qed

lemma consistent_map:
  assumes "consistent st"
  shows "node_to_partition_of (partitions st) = node_to_partition st"
proof
  fix n
  show "node_to_partition_of (partitions st) n = node_to_partition st n"
  proof (cases "node_to_partition st n")
    case None
    have "\<And>p. p \<in> set (partitions st) \<Longrightarrow> n \<notin> p"
    proof
      fix p assume "p \<in> set (partitions st)" "n \<in> p"
      then obtain j where "j < length (partitions st)" "n \<in> partitions st ! j"
        by (auto simp: in_set_conv_nth)
      then have "node_to_partition st n = Some j" using assms unfolding consistent_def by simp
      then show False using None by simp
    qed
    then show ?thesis using None by (simp add: node_to_partition_of_notin)
  next
    case (Some i)
    then have "i < length (partitions st)" "n \<in> partitions st ! i"
      using assms unfolding consistent_def by simp_all
    then show ?thesis
      using Some node_to_partition_of_in[OF consistent_disjoint[OF assms]] by simp
  qed
qed



subsection \<open>Loops that may raise\<close>

lemma fold_opt_invariant:
  assumes "fold_opt f xs a = Some b" "P a"
    and step: "\<And>x a a'. x \<in> set xs \<Longrightarrow> P a \<Longrightarrow> f x a = Some a' \<Longrightarrow> P a'"
  shows "P b"
  using assms
proof (induction xs arbitrary: a)
  case Nil
  then show ?case by simp
next
  case (Cons x xs)
  from Cons.prems(1) obtain a' where a': "f x a = Some a'" "fold_opt f xs a' = Some b"
    by (auto split: option.splits)
  have pa': "P a'" using Cons.prems(3)[of x a a'] Cons.prems(2) a'(1) by simp
  have st: "\<And>y c c'. y \<in> set xs \<Longrightarrow> P c \<Longrightarrow> f y c = Some c' \<Longrightarrow> P c'"
    using Cons.prems(3) by (meson list.set_intros(2))
  show ?case by (rule Cons.IH[OF a'(2) pa' st])
qed

lemma fold_opt_total:
  assumes "P a" and step: "\<And>x a. x \<in> set xs \<Longrightarrow> P a \<Longrightarrow> \<exists>a'. f x a = Some a' \<and> P a'"
  shows "\<exists>b. fold_opt f xs a = Some b"
  using assms
proof (induction xs arbitrary: a)
  case Nil
  then show ?case by simp
next
  case (Cons x xs)
  obtain a' where a': "f x a = Some a'" "P a'"
    using Cons.prems(2)[of x a] Cons.prems(1) by auto
  have st: "\<And>y c. y \<in> set xs \<Longrightarrow> P c \<Longrightarrow> \<exists>c'. f y c = Some c' \<and> P c'"
    using Cons.prems(2) by (meson list.set_intros(2))
  have "\<exists>b. fold_opt f xs a' = Some b" by (rule Cons.IH[OF a'(2) st])
  then show ?case using a'(1) by simp
qed

lemma fold_opt_covers:
  assumes "fold_opt f xs a = Some b"
    and "\<And>x a a'. x \<in> set xs \<Longrightarrow> f x a = Some a' \<Longrightarrow> R x a'"
    and "\<And>x y a a'. y \<in> set xs \<Longrightarrow> R x a \<Longrightarrow> f y a = Some a' \<Longrightarrow> R x a'"
  shows "\<forall>x\<in>set xs. R x b"
  using assms
proof (induction xs arbitrary: a)
  case Nil
  then show ?case by simp
next
  case (Cons x xs)
  from Cons.prems(1) obtain a' where a': "f x a = Some a'" "fold_opt f xs a' = Some b"
    by (auto split: option.splits)
  have s1: "\<And>y c c'. y \<in> set xs \<Longrightarrow> f y c = Some c' \<Longrightarrow> R y c'"
    using Cons.prems(2) by (meson list.set_intros(2))
  have s2: "\<And>z y c c'. y \<in> set xs \<Longrightarrow> R z c \<Longrightarrow> f y c = Some c' \<Longrightarrow> R z c'"
    using Cons.prems(3) by (meson list.set_intros(2))
  have rest: "\<forall>y\<in>set xs. R y b" by (rule Cons.IH[OF a'(2) s1 s2])
  have "R x a'" using Cons.prems(2)[of x a a'] a'(1) by simp
  then have "R x b" using fold_opt_invariant[OF a'(2), of "R x"] s2 by blast
  then show ?case using rest by simp
qed

subsection \<open>The search for the best move\<close>

lemma finite_boundary_nodes: "finite (boundary_nodes g m)"
  unfolding boundary_nodes_def by simp

lemma finite_neighbor_partitions: "finite (neighbor_partitions g m node)"
  unfolding neighbor_partitions_def by simp

lemma neighbor_partitions_iff:
  "t \<in> neighbor_partitions g m node \<longleftrightarrow> (\<exists>nb\<in>set (all_neighbors g node). m nb = Some t)"
  unfolding neighbor_partitions_def by auto

lemma iterates_set: "iterates it \<Longrightarrow> finite S \<Longrightarrow> set (it S) = S"
  unfolding iterates_def by simp

lemma iter_nodes_boundary:
  "valid_iteration ext \<Longrightarrow> set (iter_nodes ext (boundary_nodes g m)) = boundary_nodes g m"
  by (simp add: valid_iteration_def iterates_set finite_boundary_nodes)

lemma iter_parts_neighbor:
  "valid_iteration ext \<Longrightarrow>
   set (iter_parts ext (neighbor_partitions g m node)) = neighbor_partitions g m node"
  by (simp add: valid_iteration_def iterates_set finite_neighbor_partitions)

lemma consider_target_sound:
  assumes "consider_target ext g \<alpha> st node c t best = Some best'"
    and "sound_best ext g \<alpha> st best"
    and "node \<in> boundary_nodes g (node_to_partition st)"
    and "node_to_partition st node = Some c"
    and "t \<in> neighbor_partitions g (node_to_partition st) node"
  shows "sound_best ext g \<alpha> st best'"
proof (cases "t = c")
  case True
  then show ?thesis using assms(1,2) by (simp add: consider_target_def)
next
  case False
  then obtain y where y: "total_gain ext g \<alpha> st node c t = Some y"
    and b: "best' = (if improves y best then Some (node, t, y) else best)"
    using assms(1) by (auto simp: consider_target_def split: option.splits)
  have "candidate_move g st node c t"
    using assms(3,4,5) False by (simp add: candidate_move_def)
  then show ?thesis using assms(2) y b unfolding sound_best_def by auto
qed

lemma consider_node_sound:
  assumes "consider_node ext g \<alpha> st node best = Some best'"
    and "sound_best ext g \<alpha> st best"
    and "node \<in> boundary_nodes g (node_to_partition st)"
    and "valid_iteration ext"
  shows "sound_best ext g \<alpha> st best'"
proof -
  obtain c where c: "node_to_partition st node = Some c"
    and f: "fold_opt (consider_target ext g \<alpha> st node c)
              (iter_parts ext (neighbor_partitions g (node_to_partition st) node)) best = Some best'"
    using assms(1) by (auto simp: consider_node_def split: option.splits)
  show ?thesis
  proof (rule fold_opt_invariant[OF f, where P = "sound_best ext g \<alpha> st"])
    show "sound_best ext g \<alpha> st best" by (rule assms(2))
  next
    fix t a a'
    assume t: "t \<in> set (iter_parts ext (neighbor_partitions g (node_to_partition st) node))"
      and a: "sound_best ext g \<alpha> st a" "consider_target ext g \<alpha> st node c t a = Some a'"
    have "t \<in> neighbor_partitions g (node_to_partition st) node"
      using t by (simp add: iter_parts_neighbor[OF assms(4)])
    then show "sound_best ext g \<alpha> st a'"
      using consider_target_sound[OF a(2) a(1) assms(3) c] by simp
  qed
qed

lemma find_best_move_sound:
  assumes "find_best_move ext g \<alpha> st = Some best" and "valid_iteration ext"
  shows "sound_best ext g \<alpha> st best"
proof (rule fold_opt_invariant[OF assms(1)[unfolded find_best_move_def],
        where P = "sound_best ext g \<alpha> st"])
  show "sound_best ext g \<alpha> st None" by (simp add: sound_best_def)
next
  fix node a a'
  assume n: "node \<in> set (iter_nodes ext (boundary_nodes g (node_to_partition st)))"
    and a: "sound_best ext g \<alpha> st a" "consider_node ext g \<alpha> st node a = Some a'"
  have "node \<in> boundary_nodes g (node_to_partition st)"
    using n by (simp add: iter_nodes_boundary[OF assms(2)])
  then show "sound_best ext g \<alpha> st a'"
    using consider_node_sound[OF a(2) a(1) _ assms(2)] by simp
qed

text \<open>The best move has the largest total gain of all candidate moves.\<close>

lemma improves_gain_at_least:
  "gain_at_least best x \<Longrightarrow> gain_at_least (if improves y best then Some (n, t, y) else best) x"
  by (cases best) auto

lemma improves_gain_self:
  "gain_at_least (if improves y best then Some (n, t, y) else best) y"
  by (cases best) auto

lemma consider_target_mono:
  assumes "consider_target ext g \<alpha> st node c t best = Some best'" "gain_at_least best x"
  shows "gain_at_least best' x"
proof (cases "t = c")
  case True
  then show ?thesis using assms by (simp add: consider_target_def)
next
  case False
  then obtain y where "best' = (if improves y best then Some (node, t, y) else best)"
    using assms(1) by (auto simp: consider_target_def split: option.splits)
  then show ?thesis using improves_gain_at_least[OF assms(2), of y node t] by simp
qed

lemma consider_target_covers:
  assumes "consider_target ext g \<alpha> st node c t best = Some best'" "t \<noteq> c"
  shows "\<exists>y. total_gain ext g \<alpha> st node c t = Some y \<and> gain_at_least best' y"
proof -
  obtain y where y: "total_gain ext g \<alpha> st node c t = Some y"
    and b: "best' = (if improves y best then Some (node, t, y) else best)"
    using assms by (auto simp: consider_target_def split: option.splits)
  show ?thesis using y b improves_gain_self[of y best node t] by simp
qed

lemma consider_node_mono:
  assumes "consider_node ext g \<alpha> st node best = Some best'" "gain_at_least best x"
  shows "gain_at_least best' x"
proof -
  obtain c where f: "fold_opt (consider_target ext g \<alpha> st node c)
              (iter_parts ext (neighbor_partitions g (node_to_partition st) node)) best = Some best'"
    using assms(1) by (auto simp: consider_node_def split: option.splits)
  show ?thesis
  proof (rule fold_opt_invariant[OF f, where P = "\<lambda>b. gain_at_least b x"])
    show "gain_at_least best x" by (rule assms(2))
  next
    fix t a a'
    assume "gain_at_least a x" "consider_target ext g \<alpha> st node c t a = Some a'"
    then show "gain_at_least a' x" using consider_target_mono by fast
  qed
qed

lemma consider_node_covers:
  assumes "consider_node ext g \<alpha> st node best = Some best'"
    and "valid_iteration ext"
    and "candidate_move g st node c t"
  shows "\<exists>y. total_gain ext g \<alpha> st node c t = Some y \<and> gain_at_least best' y"
proof -
  have c: "node_to_partition st node = Some c"
    and t: "t \<in> neighbor_partitions g (node_to_partition st) node" "t \<noteq> c"
    using assms(3) by (simp_all add: candidate_move_def)
  have f: "fold_opt (consider_target ext g \<alpha> st node c)
              (iter_parts ext (neighbor_partitions g (node_to_partition st) node)) best = Some best'"
    using assms(1) c by (simp add: consider_node_def)
  have "\<forall>t\<in>set (iter_parts ext (neighbor_partitions g (node_to_partition st) node)).
          t \<noteq> c \<longrightarrow> (\<exists>y. total_gain ext g \<alpha> st node c t = Some y \<and> gain_at_least best' y)"
  proof (rule fold_opt_covers[OF f])
    fix u a a' assume h: "consider_target ext g \<alpha> st node c u a = Some a'"
    show "u \<noteq> c \<longrightarrow> (\<exists>y. total_gain ext g \<alpha> st node c u = Some y \<and> gain_at_least a' y)"
      using consider_target_covers[OF h] by simp
  next
    fix u v a a'
    assume r: "u \<noteq> c \<longrightarrow> (\<exists>y. total_gain ext g \<alpha> st node c u = Some y \<and> gain_at_least a y)"
      and h: "consider_target ext g \<alpha> st node c v a = Some a'"
    show "u \<noteq> c \<longrightarrow> (\<exists>y. total_gain ext g \<alpha> st node c u = Some y \<and> gain_at_least a' y)"
    proof
      assume "u \<noteq> c"
      then obtain y where y: "total_gain ext g \<alpha> st node c u = Some y" "gain_at_least a y"
        using r by fast
      from consider_target_mono[OF h y(2)] y(1)
      show "\<exists>y. total_gain ext g \<alpha> st node c u = Some y \<and> gain_at_least a' y" by simp
    qed
  qed
  then show ?thesis using t by (simp add: iter_parts_neighbor[OF assms(2)])
qed

lemma find_best_move_covers:
  assumes "find_best_move ext g \<alpha> st = Some best"
    and "valid_iteration ext"
    and "candidate_move g st node c t"
  shows "\<exists>y. total_gain ext g \<alpha> st node c t = Some y \<and> gain_at_least best y"
proof -
  have n: "node \<in> set (iter_nodes ext (boundary_nodes g (node_to_partition st)))"
    using assms(3) by (simp add: candidate_move_def iter_nodes_boundary[OF assms(2)])
  have "\<forall>n\<in>set (iter_nodes ext (boundary_nodes g (node_to_partition st))).
          \<forall>c t. candidate_move g st n c t \<longrightarrow>
            (\<exists>y. total_gain ext g \<alpha> st n c t = Some y \<and> gain_at_least best y)"
  proof (rule fold_opt_covers[OF assms(1)[unfolded find_best_move_def]])
    fix u a a' assume h: "consider_node ext g \<alpha> st u a = Some a'"
    show "\<forall>c t. candidate_move g st u c t \<longrightarrow>
            (\<exists>y. total_gain ext g \<alpha> st u c t = Some y \<and> gain_at_least a' y)"
      using consider_node_covers[OF h assms(2)] by simp
  next
    fix u v a a'
    assume r: "\<forall>c t. candidate_move g st u c t \<longrightarrow>
            (\<exists>y. total_gain ext g \<alpha> st u c t = Some y \<and> gain_at_least a y)"
      and h: "consider_node ext g \<alpha> st v a = Some a'"
    show "\<forall>c t. candidate_move g st u c t \<longrightarrow>
            (\<exists>y. total_gain ext g \<alpha> st u c t = Some y \<and> gain_at_least a' y)"
    proof (intro allI impI)
      fix c t assume "candidate_move g st u c t"
      then obtain y where y: "total_gain ext g \<alpha> st u c t = Some y" "gain_at_least a y"
        using r by fast
      from consider_node_mono[OF h y(2)] y(1)
      show "\<exists>y. total_gain ext g \<alpha> st u c t = Some y \<and> gain_at_least a' y" by simp
    qed
  qed
  then show ?thesis using n assms(3) by auto
qed

subsection \<open>Applying a move\<close>

lemma apply_move_SomeD:
  assumes "apply_move st n t = Some st'"
  obtains c where "node_to_partition st n = Some c" "c < length (partitions st)"
    "t < length (partitions st)" "n \<in> partitions st ! c"
    "partitions st' = ((partitions st)[c := partitions st ! c - {n}])
        [t := insert n (((partitions st)[c := partitions st ! c - {n}]) ! t)]"
    "node_to_partition st' = (node_to_partition st)(n \<mapsto> t)"
proof -
  obtain c where c: "node_to_partition st n = Some c"
    using assms by (auto simp: apply_move_def split: option.splits)
  have g: "c < length (partitions st) \<and> t < length (partitions st) \<and> n \<in> partitions st ! c"
    using assms c by (auto simp: apply_move_def split: if_splits)
  have "st' = \<lparr>partitions = ((partitions st)[c := partitions st ! c - {n}])
        [t := insert n (((partitions st)[c := partitions st ! c - {n}]) ! t)],
      node_to_partition = (node_to_partition st)(n \<mapsto> t)\<rparr>"
    using assms c g by (simp add: apply_move_def Let_def)
  then have "partitions st' = ((partitions st)[c := partitions st ! c - {n}])
        [t := insert n (((partitions st)[c := partitions st ! c - {n}]) ! t)]"
    "node_to_partition st' = (node_to_partition st)(n \<mapsto> t)" by simp_all
  then show ?thesis using that c g by blast
qed

lemma apply_move_length:
  assumes "apply_move st n t = Some st'"
  shows "length (partitions st') = length (partitions st)"
  using assms by (elim apply_move_SomeD) simp

lemma apply_move_nth:
  assumes "apply_move st n t = Some st'" "i < length (partitions st)"
    and "node_to_partition st n = Some c"
  shows "partitions st' ! i =
     (if i = t then insert n (partitions st ! i)
      else if i = c then partitions st ! i - {n} else partitions st ! i)"
proof -
  from assms(1) obtain c' where c': "node_to_partition st n = Some c'"
    "c' < length (partitions st)" "t < length (partitions st)"
    and p: "partitions st' = ((partitions st)[c' := partitions st ! c' - {n}])
        [t := insert n (((partitions st)[c' := partitions st ! c' - {n}]) ! t)]"
    by (elim apply_move_SomeD)
  have cc: "c' = c" using c'(1) assms(3) by simp
  show ?thesis
  proof (cases "i = t")
    case True
    then show ?thesis using p cc c' assms(2) by (auto simp: nth_list_update)
  next
    case False
    then show ?thesis using p cc c' assms(2) by (simp add: nth_list_update)
  qed
qed

lemma apply_move_consistent:
  assumes "consistent st" "apply_move st n t = Some st'"
  shows "consistent st'"
proof -
  from assms(2) obtain c where c: "node_to_partition st n = Some c"
    "c < length (partitions st)" "t < length (partitions st)" "n \<in> partitions st ! c"
    and m: "node_to_partition st' = (node_to_partition st)(n \<mapsto> t)"
    by (elim apply_move_SomeD)
  have len: "length (partitions st') = length (partitions st)"
    by (rule apply_move_length[OF assms(2)])
  have nth: "\<And>i. i < length (partitions st) \<Longrightarrow> partitions st' ! i =
     (if i = t then insert n (partitions st ! i)
      else if i = c then partitions st ! i - {n} else partitions st ! i)"
    by (rule apply_move_nth[OF assms(2) _ c(1)])
  have only: "\<And>i. i < length (partitions st) \<Longrightarrow> n \<in> partitions st ! i \<Longrightarrow> i = c"
    using assms(1) c(1) unfolding consistent_def by (metis option.inject)
  show ?thesis
    unfolding consistent_def
  proof (intro allI)
    fix x i
    show "node_to_partition st' x = Some i \<longleftrightarrow>
          i < length (partitions st') \<and> x \<in> partitions st' ! i"
    proof (cases "x = n")
      case True
      show ?thesis
      proof (cases "i < length (partitions st)")
        case False
        then show ?thesis using True m len c(3) by auto
      next
        case i: True
        show ?thesis
        proof (cases "i = t")
          case True
          then show ?thesis using \<open>x = n\<close> m len c(3) nth[OF i] by simp
        next
          case False
          have "n \<notin> partitions st' ! i"
            using nth[OF i] False only[OF i] by auto
          then show ?thesis using \<open>x = n\<close> m False by simp
        qed
      qed
    next
      case False
      have a: "node_to_partition st' x = node_to_partition st x" using m False by simp
      show ?thesis
      proof (cases "i < length (partitions st)")
        case False
        then show ?thesis using a len assms(1) unfolding consistent_def by simp
      next
        case True
        have "x \<in> partitions st' ! i \<longleftrightarrow> x \<in> partitions st ! i"
          using nth[OF True] \<open>x \<noteq> n\<close> by auto
        then show ?thesis using a len True assms(1) unfolding consistent_def by simp
      qed
    qed
  qed
qed

lemma apply_move_total:
  assumes "consistent st" "node_to_partition st n = Some c" "t < length (partitions st)"
  shows "\<exists>st'. apply_move st n t = Some st'"
proof -
  have "c < length (partitions st)" "n \<in> partitions st ! c"
    using assms(1,2) unfolding consistent_def by simp_all
  then show ?thesis using assms(2,3) by (simp add: apply_move_def Let_def)
qed

lemma consistent_union:
  assumes "consistent st"
  shows "\<Union> (set (partitions st)) = dom (node_to_partition st)"
proof (intro set_eqI iffI)
  fix x assume "x \<in> \<Union> (set (partitions st))"
  then obtain i where "i < length (partitions st)" "x \<in> partitions st ! i"
    by (auto simp: in_set_conv_nth)
  then have "node_to_partition st x = Some i" using assms unfolding consistent_def by simp
  then show "x \<in> dom (node_to_partition st)" by auto
next
  fix x assume "x \<in> dom (node_to_partition st)"
  then obtain i where "node_to_partition st x = Some i" by auto
  then have "i < length (partitions st)" "x \<in> partitions st ! i"
    using assms unfolding consistent_def by simp_all
  then show "x \<in> \<Union> (set (partitions st))" by (meson UnionI nth_mem)
qed

lemma apply_move_union:
  assumes "consistent st" "apply_move st n t = Some st'"
  shows "\<Union> (set (partitions st')) = \<Union> (set (partitions st))"
proof -
  from assms(2) obtain c where c: "node_to_partition st n = Some c"
    and m: "node_to_partition st' = (node_to_partition st)(n \<mapsto> t)"
    by (elim apply_move_SomeD)
  have "dom (node_to_partition st') = dom (node_to_partition st)"
    using c m by auto
  then show ?thesis
    using consistent_union[OF assms(1)] consistent_union[OF apply_move_consistent[OF assms]]
    by simp
qed

subsection \<open>One pass\<close>

lemma io_pass_NoBoundary:
  assumes "io_pass ext g \<alpha> st = Some NoBoundary"
  shows "boundary_nodes g (node_to_partition st) = {}"
proof (rule ccontr)
  assume "boundary_nodes g (node_to_partition st) \<noteq> {}"
  then show False using assms
    by (auto simp: io_pass_def split: option.splits if_splits)
qed

lemma gain_at_least_nonpos:
  assumes "gain_at_least best x" "best = None \<or> (\<exists>n t y. best = Some (n, t, y) \<and> y \<le> 0)"
  shows "x \<le> 0"
  using assms by (cases best) auto

lemma io_pass_NoImprovement:
  assumes "io_pass ext g \<alpha> st = Some NoImprovement" "valid_iteration ext"
    and "candidate_move g st node c t"
  shows "\<exists>y. total_gain ext g \<alpha> st node c t = Some y \<and> y \<le> 0"
proof -
  obtain best where b: "find_best_move ext g \<alpha> st = Some best"
    and nb: "best = None \<or> (\<exists>n t y. best = Some (n, t, y) \<and> y \<le> 0)"
    using assms(1) by (auto simp: io_pass_def split: option.splits if_splits)
  obtain y where y: "total_gain ext g \<alpha> st node c t = Some y" "gain_at_least best y"
    using find_best_move_covers[OF b assms(2,3)] by auto
  have "y \<le> 0" by (rule gain_at_least_nonpos[OF y(2) nb])
  then show ?thesis using y(1) by simp
qed

lemma io_pass_Moved:
  assumes "io_pass ext g \<alpha> st = Some (Moved st')" "valid_iteration ext"
  shows "\<exists>node c t y. candidate_move g st node c t \<and> total_gain ext g \<alpha> st node c t = Some y \<and>
           0 < y \<and> apply_move st node t = Some st'"
proof -
  obtain node t y where b: "find_best_move ext g \<alpha> st = Some (Some (node, t, y))"
    and y: "0 < y" and a: "apply_move st node t = Some st'"
    using assms(1) by (auto simp: io_pass_def split: option.splits if_splits)
  have "sound_best ext g \<alpha> st (Some (node, t, y))"
    by (rule find_best_move_sound[OF b assms(2)])
  then obtain c where "candidate_move g st node c t" "total_gain ext g \<alpha> st node c t = Some y"
    unfolding sound_best_def by auto
  then show ?thesis using y a by auto
qed

lemma io_pass_Moved_apply:
  assumes "io_pass ext g \<alpha> st = Some (Moved st')"
  shows "\<exists>node t. apply_move st node t = Some st'"
  using assms by (auto simp: io_pass_def split: option.splits if_splits)

lemma io_pass_length:
  assumes "io_pass ext g \<alpha> st = Some (Moved st')"
  shows "length (partitions st') = length (partitions st)"
  using io_pass_Moved_apply[OF assms] apply_move_length by auto

lemma io_pass_consistent:
  assumes "io_pass ext g \<alpha> st = Some (Moved st')" "consistent st"
  shows "consistent st'"
  using io_pass_Moved_apply[OF assms(1)] apply_move_consistent[OF assms(2)] by auto

lemma io_pass_union:
  assumes "io_pass ext g \<alpha> st = Some (Moved st')" "consistent st"
  shows "\<Union> (set (partitions st')) = \<Union> (set (partitions st))"
proof -
  obtain node t where "apply_move st node t = Some st'"
    using io_pass_Moved_apply[OF assms(1)] by auto
  then show ?thesis by (rule apply_move_union[OF assms(2)])
qed

subsection \<open>The loop\<close>

lemma io_balance_loop_SucE:
  assumes "io_balance_loop ext g \<alpha> (Suc left) st = Some run"
  obtains (break) "io_pass ext g \<alpha> st = Some NoBoundary \<or> io_pass ext g \<alpha> st = Some NoImprovement"
      "run = \<lparr>final = st, passes = 1, moves = 0, stopped = True, visited = []\<rparr>"
  | (moved) st' r where "io_pass ext g \<alpha> st = Some (Moved st')"
      "io_balance_loop ext g \<alpha> left st' = Some r"
      "run = r\<lparr>passes := Suc (passes r), moves := Suc (moves r), visited := st' # visited r\<rparr>"
proof (cases "io_pass ext g \<alpha> st")
  case None
  then show ?thesis using assms by simp
next
  case (Some out)
  show ?thesis
  proof (cases out)
    case NoBoundary
    then show ?thesis using assms Some break by simp
  next
    case NoImprovement
    then show ?thesis using assms Some break by simp
  next
    case (Moved st')
    then obtain r where "io_balance_loop ext g \<alpha> left st' = Some r"
      "run = r\<lparr>passes := Suc (passes r), moves := Suc (moves r), visited := st' # visited r\<rparr>"
      using assms Some by auto
    then show ?thesis using moved Some Moved by simp
  qed
qed

lemma io_balance_loop_counts:
  "io_balance_loop ext g \<alpha> left st = Some run \<Longrightarrow>
   passes run \<le> left \<and> moves run \<le> passes run \<and> length (visited run) = moves run"
proof (induction left arbitrary: st run)
  case 0
  then show ?case by auto
next
  case (Suc left)
  from Suc.prems show ?case
  proof (cases rule: io_balance_loop_SucE)
    case break
    then show ?thesis by simp
  next
    case (moved st' r)
    from Suc.IH[OF moved(2)] moved(3) show ?thesis by simp
  qed
qed

lemma io_balance_loop_length:
  "io_balance_loop ext g \<alpha> left st = Some run \<Longrightarrow>
   length (partitions (final run)) = length (partitions st)"
proof (induction left arbitrary: st run)
  case 0
  then show ?case by auto
next
  case (Suc left)
  from Suc.prems show ?case
  proof (cases rule: io_balance_loop_SucE)
    case break
    then show ?thesis by simp
  next
    case (moved st' r)
    from Suc.IH[OF moved(2)] moved(3) io_pass_length[OF moved(1)] show ?thesis by simp
  qed
qed

lemma io_balance_loop_consistent:
  "io_balance_loop ext g \<alpha> left st = Some run \<Longrightarrow> consistent st \<Longrightarrow>
   consistent (final run) \<and> (\<forall>s\<in>set (visited run). consistent s) \<and>
   \<Union> (set (partitions (final run))) = \<Union> (set (partitions st))"
proof (induction left arbitrary: st run)
  case 0
  then show ?case by auto
next
  case (Suc left)
  from Suc.prems(1) show ?case
  proof (cases rule: io_balance_loop_SucE)
    case break
    then show ?thesis using Suc.prems(2) by simp
  next
    case (moved st' r)
    have c: "consistent st'" by (rule io_pass_consistent[OF moved(1) Suc.prems(2)])
    have u: "\<Union> (set (partitions st')) = \<Union> (set (partitions st))"
      by (rule io_pass_union[OF moved(1) Suc.prems(2)])
    from Suc.IH[OF moved(2) c] moved(3) c u show ?thesis by simp
  qed
qed

lemma io_balance_loop_stopped:
  "io_balance_loop ext g \<alpha> left st = Some run \<Longrightarrow> valid_iteration ext \<Longrightarrow> stopped run \<Longrightarrow>
   candidate_move g (final run) node c t \<Longrightarrow>
   \<exists>y. total_gain ext g \<alpha> (final run) node c t = Some y \<and> y \<le> 0"
proof (induction left arbitrary: st run)
  case 0
  then show ?case by auto
next
  case (Suc left)
  from Suc.prems(1) show ?case
  proof (cases rule: io_balance_loop_SucE)
    case break
    have f: "final run = st" using break(2) by simp
    from break(1) show ?thesis
    proof
      assume "io_pass ext g \<alpha> st = Some NoBoundary"
      then have "boundary_nodes g (node_to_partition st) = {}" by (rule io_pass_NoBoundary)
      then show ?thesis using Suc.prems(4) f by (simp add: candidate_move_def)
    next
      assume "io_pass ext g \<alpha> st = Some NoImprovement"
      then show ?thesis using io_pass_NoImprovement[OF _ Suc.prems(2)] Suc.prems(4) f by simp
    qed
  next
    case (moved st' r)
    have "stopped r" "final run = final r" using moved(3) Suc.prems(3) by simp_all
    then show ?thesis using Suc.IH[OF moved(2) Suc.prems(2)] Suc.prems(4) by simp
  qed
qed

subsection \<open>The balancing phase raises nothing on a partition of the nodes\<close>

lemma boundary_in_nodes:
  assumes "wf_graph g" "node \<in> boundary_nodes g m"
  shows "node \<in> set (nodes g)"
proof -
  from assms(2) obtain e where e: "e \<in> set (edges g)" "node = fst e \<or> node = snd e"
    unfolding boundary_nodes_def by (auto split: if_splits)
  have "fst e \<in> set (nodes g)" "snd e \<in> set (nodes g)"
    using assms(1) e(1) unfolding wf_graph_def by blast+
  then show ?thesis using e(2) by auto
qed

lemma io_imbalance_Some:
  "ns \<subseteq> set (nodes g) \<Longrightarrow> \<exists>x. io_imbalance g ns = Some x"
  by (simp add: io_imbalance_def get_io_for_partition_def)

lemma io_gain_Some:
  assumes "c < length parts" "t < length parts" "parts ! c \<subseteq> set (nodes g)"
    "parts ! t \<subseteq> set (nodes g)" "node \<in> set (nodes g)"
  shows "\<exists>x. io_gain g parts node c t = Some x"
proof -
  obtain a where a: "io_imbalance g (parts ! c) = Some a"
    using io_imbalance_Some[OF assms(3)] by auto
  have "parts ! c - {node} \<subseteq> set (nodes g)" using assms(3) by auto
  then obtain b where b: "io_imbalance g (parts ! c - {node}) = Some b"
    using io_imbalance_Some by blast
  obtain d where d: "io_imbalance g (parts ! t) = Some d"
    using io_imbalance_Some[OF assms(4)] by auto
  have "parts ! t \<union> {node} \<subseteq> set (nodes g)" using assms(4,5) by auto
  then obtain e where e: "io_imbalance g (parts ! t \<union> {node}) = Some e"
    using io_imbalance_Some by blast
  show ?thesis using assms(1,2) a b d e by (simp add: io_gain_def)
qed

text \<open>The state of the balancing phase on a graph: the map and the list agree, and the
  partitions cover the nodes.\<close>

lemma good_nth_subset:
  assumes "\<Union> (set (partitions st)) = set (nodes g)" "i < length (partitions st)"
  shows "partitions st ! i \<subseteq> set (nodes g)"
  using assms by (metis Union_upper nth_mem)

lemma neighbor_partition_bound:
  assumes "consistent st" "t \<in> neighbor_partitions g (node_to_partition st) node"
  shows "t < length (partitions st)"
proof -
  obtain nb where "node_to_partition st nb = Some t"
    using assms(2) by (auto simp: neighbor_partitions_iff)
  then show ?thesis using assms(1) unfolding consistent_def by simp
qed

lemma total_gain_Some:
  assumes "consistent st" "\<Union> (set (partitions st)) = set (nodes g)"
    and "node \<in> set (nodes g)" "node_to_partition st node = Some c"
    and "t \<in> neighbor_partitions g (node_to_partition st) node"
  shows "\<exists>y. total_gain ext g \<alpha> st node c t = Some y"
proof -
  have c: "c < length (partitions st)" using assms(1,4) unfolding consistent_def by simp
  have t: "t < length (partitions st)" by (rule neighbor_partition_bound[OF assms(1,5)])
  obtain x where "io_gain g (partitions st) node c t = Some x"
    using io_gain_Some[OF c t good_nth_subset[OF assms(2) c] good_nth_subset[OF assms(2) t]
        assms(3)] by auto
  then show ?thesis by (simp add: total_gain_def)
qed

lemma consider_target_total:
  assumes "consistent st" "\<Union> (set (partitions st)) = set (nodes g)"
    and "node \<in> set (nodes g)" "node_to_partition st node = Some c"
    and "t \<in> neighbor_partitions g (node_to_partition st) node"
  shows "\<exists>b'. consider_target ext g \<alpha> st node c t best = Some b'"
proof -
  obtain y where "total_gain ext g \<alpha> st node c t = Some y"
    using total_gain_Some[OF assms] by auto
  then show ?thesis by (simp add: consider_target_def)
qed

lemma consider_node_total:
  assumes "consistent st" "\<Union> (set (partitions st)) = set (nodes g)"
    and "node \<in> set (nodes g)" "valid_iteration ext"
  shows "\<exists>b'. consider_node ext g \<alpha> st node best = Some b'"
proof -
  have "node \<in> dom (node_to_partition st)"
    using assms(2,3) consistent_union[OF assms(1)] by simp
  then obtain c where c: "node_to_partition st node = Some c" by auto
  have "\<exists>b'. fold_opt (consider_target ext g \<alpha> st node c)
          (iter_parts ext (neighbor_partitions g (node_to_partition st) node)) best = Some b'"
  proof (rule fold_opt_total[where P = "\<lambda>_. True"])
    show True by simp
  next
    fix t a
    assume "t \<in> set (iter_parts ext (neighbor_partitions g (node_to_partition st) node))"
    then have "t \<in> neighbor_partitions g (node_to_partition st) node"
      by (simp add: iter_parts_neighbor[OF assms(4)])
    then show "\<exists>a'. consider_target ext g \<alpha> st node c t a = Some a' \<and> True"
      using consider_target_total[OF assms(1,2,3) c] by simp
  qed
  then show ?thesis using c by (simp add: consider_node_def)
qed

lemma find_best_move_total:
  assumes "wf_graph g" "consistent st" "\<Union> (set (partitions st)) = set (nodes g)"
    and "valid_iteration ext"
  shows "\<exists>best. find_best_move ext g \<alpha> st = Some best"
  unfolding find_best_move_def
proof (rule fold_opt_total[where P = "\<lambda>_. True"])
  show True by simp
next
  fix node a
  assume "node \<in> set (iter_nodes ext (boundary_nodes g (node_to_partition st)))"
  then have "node \<in> boundary_nodes g (node_to_partition st)"
    by (simp add: iter_nodes_boundary[OF assms(4)])
  then have "node \<in> set (nodes g)" by (rule boundary_in_nodes[OF assms(1)])
  then show "\<exists>a'. consider_node ext g \<alpha> st node a = Some a' \<and> True"
    using consider_node_total[OF assms(2,3) _ assms(4)] by simp
qed

lemma io_pass_total:
  assumes "wf_graph g" "consistent st" "\<Union> (set (partitions st)) = set (nodes g)"
    and "valid_iteration ext"
  shows "\<exists>out. io_pass ext g \<alpha> st = Some out"
proof -
  obtain best where b: "find_best_move ext g \<alpha> st = Some best"
    using find_best_move_total[OF assms] by auto
  show ?thesis
  proof (cases best)
    case None
    then show ?thesis using b by (simp add: io_pass_def)
  next
    case (Some mv)
    obtain node t y where mv: "mv = (node, t, y)" by (cases mv) auto
    have "sound_best ext g \<alpha> st (Some (node, t, y))"
      using find_best_move_sound[OF b assms(4)] Some mv by simp
    then obtain c where c: "candidate_move g st node c t"
      unfolding sound_best_def by auto
    then have "node_to_partition st node = Some c"
      "t \<in> neighbor_partitions g (node_to_partition st) node"
      by (simp_all add: candidate_move_def)
    then obtain st' where "apply_move st node t = Some st'"
      using apply_move_total[OF assms(2)] neighbor_partition_bound[OF assms(2)] by blast
    then show ?thesis using b Some mv by (simp add: io_pass_def)
  qed
qed

lemma io_balance_loop_total:
  assumes "wf_graph g" "valid_iteration ext"
  shows "consistent st \<Longrightarrow> \<Union> (set (partitions st)) = set (nodes g) \<Longrightarrow>
         \<exists>run. io_balance_loop ext g \<alpha> left st = Some run"
proof (induction left arbitrary: st)
  case 0
  then show ?case by simp
next
  case (Suc left)
  obtain out where out: "io_pass ext g \<alpha> st = Some out"
    using io_pass_total[OF assms(1) Suc.prems assms(2)] by auto
  show ?case
  proof (cases out)
    case NoBoundary
    then show ?thesis using out by simp
  next
    case NoImprovement
    then show ?thesis using out by simp
  next
    case (Moved st')
    have m: "io_pass ext g \<alpha> st = Some (Moved st')" using out Moved by simp
    have c: "consistent st'" by (rule io_pass_consistent[OF m Suc.prems(1)])
    have u: "\<Union> (set (partitions st')) = set (nodes g)"
      using io_pass_union[OF m Suc.prems(1)] Suc.prems(2) by simp
    obtain r where "io_balance_loop ext g \<alpha> left st' = Some r"
      using Suc.IH[OF c u] by auto
    then show ?thesis using m by simp
  qed
qed

lemma io_balancing_total:
  assumes "wf_graph g" "valid_iteration ext" "is_partition_of g parts"
  shows "\<exists>run. io_balancing ext g \<alpha> parts = Some run"
proof -
  have d: "pairwise_disjoint parts" and u: "\<Union> (set parts) = set (nodes g)"
    using assms(3) by (simp_all add: is_partition_of_def)
  show ?thesis
    unfolding io_balancing_def
    by (rule io_balance_loop_total[OF assms(1,2)])
       (use consistent_initial[OF d] u in simp_all)
qed

subsection \<open>The example inputs are well-formed\<close>

lemma iterates_sorted_list_of_set: "iterates (sorted_list_of_set :: 'b::linorder set \<Rightarrow> 'b list)"
  unfolding iterates_def by simp

lemma iterates_rev_sorted_list_of_set:
  "iterates (rev \<circ> (sorted_list_of_set :: 'b::linorder set \<Rightarrow> 'b list))"
  unfolding iterates_def by simp

lemma valid_iteration_example: "valid_iteration example_externals"
  unfolding valid_iteration_def example_externals_def
  by (simp add: iterates_sorted_list_of_set)

lemma valid_iteration_example_desc: "valid_iteration example_externals_desc"
  unfolding valid_iteration_def example_externals_desc_def example_externals_def
  by (simp add: iterates_sorted_list_of_set iterates_rev_sorted_list_of_set)

lemma wf_edge_graph: "wf_graph edge_graph"
  by (simp add: wf_graph_def edge_graph_def)

lemma wf_path_graph: "wf_graph path_graph"
  by (simp add: wf_graph_def path_graph_def)

lemma partition_edge_graph: "is_partition_of edge_graph [{1}, {0, 2}]"
  by (auto simp: is_partition_of_def pairwise_disjoint_def edge_graph_def)

lemma partition_path_graph: "is_partition_of path_graph [{0, 1}, {2, 3}]"
  by (auto simp: is_partition_of_def pairwise_disjoint_def path_graph_def)

subsection \<open>Claims on the balancing phase\<close>

text \<open>
  Claim C5. When the balancing loop ends by one of its two \<^verbatim>\<open>break\<close>s (and not by using up
  its passes), every candidate move of the final state, that is every move of a boundary
  node to another partition that holds one of its neighbours, has a total gain that is not
  greater than zero. The total gain is the one of line 236, the float that the program
  computes for \<open>cut_gain + \<alpha> * io_gain\<close> and compares at line 238; the statement holds
  however the floats are rounded.
\<close>

theorem io_balancing_local_optimum:
  assumes "valid_iteration ext"
    and "io_balancing ext g \<alpha> parts = Some run"
    and "stopped run"
    and "candidate_move g (final run) node c t"
  shows "\<exists>y. total_gain ext g \<alpha> (final run) node c t = Some y \<and> y \<le> 0"
  using io_balance_loop_stopped[OF assms(2)[unfolded io_balancing_def] assms(1,3,4)] .

text \<open>On \<open>pairs_graph\<close> with the weight \<^verbatim>\<open>0.33333333333333337\<close> the loop stops in its first
  pass, without a move: every candidate move has the computed gain \<open>0\<close>.\<close>

theorem io_balancing_local_optimum_witness:
  "\<exists>run. io_balancing example_externals pairs_graph third_up [{1, 3}, {0, 2}] = Some run \<and>
     stopped run \<and> moves run = 0 \<and> candidate_move pairs_graph (final run) 0 1 0 \<and>
     (\<exists>y. total_gain example_externals pairs_graph third_up (final run) 0 1 0 = Some y \<and> y \<le> 0)"
proof -
  have "case io_balancing example_externals pairs_graph third_up [{1, 3}, {0, 2}] of
          None \<Rightarrow> False
        | Some run \<Rightarrow> stopped run \<and> moves run = 0 \<and>
                      candidate_move pairs_graph (final run) 0 1 0"
    by code_simp
  then obtain run where
    r: "io_balancing example_externals pairs_graph third_up [{1, 3}, {0, 2}] = Some run"
      "stopped run" "candidate_move pairs_graph (final run) 0 1 0"
    and m: "moves run = 0"
    by (auto split: option.splits)
  from io_balancing_local_optimum[OF valid_iteration_example r] r m show ?thesis by simp
qed

text \<open>
  Claim C6. On a partition of the nodes of a graph the balancing loop returns, after at most
  \<open>number_of_nodes\<close> passes, and it applies at most one move per pass.
\<close>

theorem io_balancing_terminates:
  assumes "wf_graph g" "valid_iteration ext" "is_partition_of g parts"
  shows "\<exists>run. io_balancing ext g \<alpha> parts = Some run \<and>
           passes run \<le> number_of_nodes g \<and> moves run \<le> passes run"
proof -
  obtain run where r: "io_balancing ext g \<alpha> parts = Some run"
    using io_balancing_total[OF assms] by auto
  from io_balance_loop_counts[OF r[unfolded io_balancing_def]] r show ?thesis by simp
qed

theorem io_balancing_terminates_witness:
  "\<exists>run. io_balancing example_externals edge_graph 0 [{1}, {0, 2}] = Some run \<and>
     passes run \<le> number_of_nodes edge_graph \<and> moves run \<le> passes run"
  using io_balancing_terminates[OF wf_edge_graph valid_iteration_example partition_edge_graph]
  by simp

text \<open>
  Claim C9. The balancing phase starts from pairwise disjoint partitions and the map built
  from them. After every applied move the map sends a node \<open>n\<close> to \<open>i\<close> if and only if \<open>n\<close>
  is a member of partition \<open>i\<close>, and the partitions are pairwise disjoint; the same holds
  for the state the phase starts from and for the state it ends in.
\<close>

theorem io_balancing_keeps_consistency:
  assumes "pairwise_disjoint parts" "io_balancing ext g \<alpha> parts = Some run"
  shows "consistent \<lparr>partitions = parts, node_to_partition = node_to_partition_of parts\<rparr> \<and>
         (\<forall>st\<in>set (visited run). consistent st \<and> pairwise_disjoint (partitions st)) \<and>
         consistent (final run) \<and> pairwise_disjoint (partitions (final run))"
proof -
  have c: "consistent \<lparr>partitions = parts, node_to_partition = node_to_partition_of parts\<rparr>"
    by (rule consistent_initial[OF assms(1)])
  from io_balance_loop_consistent[OF assms(2)[unfolded io_balancing_def] c]
  have f: "consistent (final run)" and v: "\<forall>s\<in>set (visited run). consistent s" by simp_all
  show ?thesis using c f v consistent_disjoint by blast
qed

theorem io_balancing_keeps_consistency_witness:
  "\<exists>run st. io_balancing example_externals edge_graph 0 [{1}, {0, 2}] = Some run \<and>
     visited run = [st] \<and> partitions st = [{0, 1}, {2}] \<and>
     consistent st \<and> pairwise_disjoint (partitions st)"
proof -
  have "case io_balancing example_externals edge_graph 0 [{1}, {0, 2}] of
          None \<Rightarrow> False
        | Some run \<Rightarrow> map partitions (visited run) = [[{0, 1}, {2}]]"
    by code_simp
  then obtain run st where r: "io_balancing example_externals edge_graph 0 [{1}, {0, 2}] = Some run"
    "visited run = [st]" "partitions st = [{0, 1}, {2}]"
    by (auto split: option.splits)
  have "pairwise_disjoint [{1::nat}, {0, 2}]" by (simp add: pairwise_disjoint_def)
  from io_balancing_keeps_consistency[OF this r(1)] r show ?thesis by simp
qed

subsection \<open>The cut size under a move\<close>

lemma cut_move_edges:
  fixes m m' :: "'a \<rightharpoonup> nat"
  assumes "m node = Some c" "c \<noteq> t" "m' node = Some t" "\<And>x. x \<noteq> node \<Longrightarrow> m' x = m x"
  defines "w \<equiv> \<lambda>nb. case m nb of None \<Rightarrow> (0::int)
                     | Some p \<Rightarrow> if p = c then - 1 else if p = t then 1 else 0"
  shows "int (length (filter (\<lambda>e. m (fst e) \<noteq> m (snd e)) es))
         - int (length (filter (\<lambda>e. m' (fst e) \<noteq> m' (snd e)) es))
       = sum_list (map w (map fst (filter (\<lambda>e. snd e = node) es)))
         + sum_list (map w (map snd (filter (\<lambda>e. fst e = node) es)))
         + 2 * int (length (filter (\<lambda>e. e = (node, node)) es))"
proof (induction es)
  case Nil
  then show ?case by simp
next
  case (Cons e es)
  obtain u v where e: "e = (u, v)" by (cases e) auto
  have wn: "w node = - 1" using assms(1) by (simp add: w_def)
  have wv: "\<And>x. x \<noteq> node \<Longrightarrow>
      (if Some c \<noteq> m x then 1 else 0) - (if Some t \<noteq> m x then 1 else 0) = w x"
    using assms(2) by (auto simp: w_def split: option.splits)
  let ?d = "\<lambda>es. int (length (filter (\<lambda>e. m (fst e) \<noteq> m (snd e)) es))
         - int (length (filter (\<lambda>e. m' (fst e) \<noteq> m' (snd e)) es))"
  let ?r = "\<lambda>es. sum_list (map w (map fst (filter (\<lambda>e. snd e = node) es)))
         + sum_list (map w (map snd (filter (\<lambda>e. fst e = node) es)))
         + 2 * int (length (filter (\<lambda>e. e = (node, node)) es))"
  have ih: "?d es = ?r es" by (rule Cons.IH)
  consider (both) "u = node" "v = node" | (src) "u = node" "v \<noteq> node"
    | (dst) "u \<noteq> node" "v = node" | (none) "u \<noteq> node" "v \<noteq> node" by blast
  then have "?d (e # es) - ?d es = ?r (e # es) - ?r es"
  proof cases
    case both
    have "?d (e # es) - ?d es = 0" using e both by simp
    moreover have "?r (e # es) - ?r es = 0" using e both wn by simp
    ultimately show ?thesis by simp
  next
    case src
    have "?d (e # es) - ?d es
          = (if Some c \<noteq> m v then 1 else 0) - (if Some t \<noteq> m v then 1 else 0)"
      using e src assms(1,3) assms(4)[OF src(2)] by simp
    moreover have "?r (e # es) - ?r es = w v" using e src by simp
    ultimately show ?thesis using wv[OF src(2)] by simp
  next
    case dst
    have "?d (e # es) - ?d es
          = (if Some c \<noteq> m u then 1 else 0) - (if Some t \<noteq> m u then 1 else 0)"
      using e dst assms(1,3) assms(4)[OF dst(1)] by (auto simp: eq_commute[of "m u"])
    moreover have "?r (e # es) - ?r es = w u" using e dst by simp
    ultimately show ?thesis using wv[OF dst(1)] by simp
  next
    case none
    have "?d (e # es) - ?d es = 0" using e assms(4)[OF none(1)] assms(4)[OF none(2)] by simp
    moreover have "?r (e # es) - ?r es = 0" using e none by simp
    ultimately show ?thesis by simp
  qed
  then show ?case using ih by simp
qed

text \<open>Moving \<open>node\<close> from \<open>c\<close> to \<open>t\<close> reduces the cut by \<open>cut_gain\<close>, plus two for a
  self-loop on \<open>node\<close>, which \<open>cut_gain\<close> counts twice as a neighbour in \<open>c\<close>.\<close>

lemma cut_reduction_of_move:
  assumes "m node = Some c" "c \<noteq> t"
  shows "int (cut_of g m) - int (cut_of g (m(node \<mapsto> t)))
       = cut_gain g m node c t + 2 * int (length (filter (\<lambda>e. e = (node, node)) (edges g)))"
proof -
  have "(m(node \<mapsto> t)) node = Some t" "\<And>x. x \<noteq> node \<Longrightarrow> (m(node \<mapsto> t)) x = m x"
    by simp_all
  from cut_move_edges[of m node c t "m(node \<mapsto> t)" "edges g", OF assms this] show ?thesis
    unfolding cut_of_def cut_gain_def all_neighbors_def predecessors_def successors_def
    by simp
qed

lemma gain_sum_counts:
  fixes m :: "'a \<rightharpoonup> nat"
  assumes "c \<noteq> t"
  shows "sum_list (map (\<lambda>nb. case m nb of None \<Rightarrow> (0::int)
                     | Some p \<Rightarrow> if p = c then - 1 else if p = t then 1 else 0) xs)
       = int (length (filter (\<lambda>nb. m nb = Some t) xs))
         - int (length (filter (\<lambda>nb. m nb = Some c) xs))"
  using assms by (induction xs) (auto split: option.splits)

lemma cut_gain_counts:
  assumes "c \<noteq> t"
  shows "cut_gain g m node c t
       = int (length (filter (\<lambda>nb. m nb = Some t) (all_neighbors g node)))
         - int (length (filter (\<lambda>nb. m nb = Some c) (all_neighbors g node)))"
  unfolding cut_gain_def by (rule gain_sum_counts[OF assms])

subsection \<open>Float arithmetic\<close>

text \<open>Rounding does not change the sign of a value, and a weight of \<open>0\<close> leaves the sign of
  the cut gain to the total gain.\<close>

lemma to_float_zero: "to_float ext 0 = 0"
  by (simp add: to_float_def)

lemma to_float_nonpos:
  assumes "x \<le> 0"
  shows "to_float ext x \<le> 0"
proof (cases "real_of_int \<lfloor>x\<rfloor> = x \<and> \<bar>x\<bar> \<le> 2 ^ 53")
  case True
  then show ?thesis using assms by (simp add: to_float_def)
next
  case False
  have "sgn x \<le> 0" using assms by (simp add: sgn_real_def)
  then have "sgn x * \<bar>inexact ext x\<bar> \<le> 0" by (rule mult_nonpos_nonneg) simp
  then show ?thesis using assms by (simp add: to_float_def)
qed

lemma to_float_small_int:
  assumes "\<bar>n\<bar> \<le> 2 ^ 53"
  shows "to_float ext (real_of_int n) = real_of_int n"
proof -
  have "\<bar>real_of_int n\<bar> \<le> 2 ^ 53"
    using assms of_int_le_iff[of "\<bar>n\<bar>" "2 ^ 53", where ?'a = real] by simp
  then show ?thesis by (simp add: to_float_def)
qed

lemma float_total_alpha_zero:
  assumes "0 < float_total ext cut_g 0 io_g"
  shows "0 < cut_g"
proof (rule ccontr)
  assume "\<not> 0 < cut_g"
  then have "real_of_int cut_g \<le> 0" by simp
  then have "to_float ext (real_of_int cut_g) \<le> 0" by (rule to_float_nonpos)
  then have "to_float ext (real_of_int cut_g) + to_float ext (0 * to_float ext (real_of_int io_g)) \<le> 0"
    by (simp add: to_float_zero)
  then have "float_total ext cut_g 0 io_g \<le> 0"
    unfolding float_total_def by (rule to_float_nonpos)
  then show False using assms by simp
qed

text \<open>The computed gain is the rounded one: for a cut gain of \<open>-1\<close>, an I/O gain of \<open>3\<close> and
  the weight \<^verbatim>\<open>0.33333333333333337\<close> the exact sum is \<open>2\<^sup>-\<^sup>5\<^sup>3\<close>, and the program
  computes \<open>0\<close>.\<close>

lemma float_total_rounded_example:
  "float_total example_externals (- 1) third_up 3 = 0 \<and>
   - 1 + third_up * 3 = 1 / 2 ^ 53"
proof -
  have "float_total example_externals (- 1) third_up 3 = 0" by code_simp
  moreover have "- 1 + third_up * 3 = 1 / 2 ^ 53" by (simp add: third_up_def)
  ultimately show ?thesis by simp
qed

subsection \<open>Claims on the cut size\<close>

lemma io_pass_cut_alpha_zero:
  assumes "io_pass ext g 0 st = Some (Moved st')" "valid_iteration ext"
  shows "cut_of g (node_to_partition st') < cut_of g (node_to_partition st)"
proof -
  obtain node c t y where cm: "candidate_move g st node c t"
    and y: "total_gain ext g 0 st node c t = Some y" "0 < y"
    and a: "apply_move st node t = Some st'"
    using io_pass_Moved[OF assms] by blast
  have c: "node_to_partition st node = Some c" "c \<noteq> t"
    using cm by (auto simp: candidate_move_def)
  have m': "node_to_partition st' = (node_to_partition st)(node \<mapsto> t)"
    using a by (elim apply_move_SomeD)
  obtain io where "y = float_total ext (cut_gain g (node_to_partition st) node c t) 0 io"
    using y(1) by (auto simp: total_gain_def)
  then have "0 < cut_gain g (node_to_partition st) node c t"
    using y(2) float_total_alpha_zero[of ext "cut_gain g (node_to_partition st) node c t" io]
    by simp
  then have "0 < int (cut_of g (node_to_partition st)) - int (cut_of g (node_to_partition st'))"
    using cut_reduction_of_move[of "node_to_partition st" node c t g, OF c] m' by simp
  then show ?thesis by simp
qed

lemma io_balance_loop_cut_alpha_zero:
  "io_balance_loop ext g 0 left st = Some run \<Longrightarrow> valid_iteration ext \<Longrightarrow>
   cut_of g (node_to_partition (final run)) \<le> cut_of g (node_to_partition st)"
proof (induction left arbitrary: st run)
  case 0
  then show ?case by auto
next
  case (Suc left)
  from Suc.prems(1) show ?case
  proof (cases rule: io_balance_loop_SucE)
    case break
    then show ?thesis by simp
  next
    case (moved st' r)
    have "cut_of g (node_to_partition (final r)) \<le> cut_of g (node_to_partition st')"
      by (rule Suc.IH[OF moved(2) Suc.prems(2)])
    moreover have "cut_of g (node_to_partition st') < cut_of g (node_to_partition st)"
      by (rule io_pass_cut_alpha_zero[OF moved(1) Suc.prems(2)])
    ultimately show ?thesis using moved(3) by simp
  qed
qed

text \<open>
  Claim C4. With \<open>io_balance_alpha = 0\<close>, on a partition of the nodes of a graph, the
  balancing phase returns and the cut size of its final partitions is at most the cut size
  of the partitions it started from (those left by the Kernighan-Lin phase).
\<close>

theorem io_balancing_alpha_zero_cut:
  assumes "wf_graph g" "valid_iteration ext" "is_partition_of g parts"
  shows "\<exists>run. io_balancing ext g 0 parts = Some run \<and>
           calculate_cut_size g (partitions (final run)) \<le> calculate_cut_size g parts"
proof -
  obtain run where r: "io_balancing ext g 0 parts = Some run"
    using io_balancing_total[OF assms] by auto
  have d: "pairwise_disjoint parts" using assms(3) by (simp add: is_partition_of_def)
  let ?st = "\<lparr>partitions = parts, node_to_partition = node_to_partition_of parts\<rparr>"
  have c: "consistent ?st" by (rule consistent_initial[OF d])
  have l: "io_balance_loop ext g 0 (number_of_nodes g) ?st = Some run"
    using r by (simp add: io_balancing_def)
  have "consistent (final run)" using io_balance_loop_consistent[OF l c] by simp
  then have "node_to_partition_of (partitions (final run)) = node_to_partition (final run)"
    by (rule consistent_map)
  moreover have "cut_of g (node_to_partition (final run)) \<le> cut_of g (node_to_partition ?st)"
    by (rule io_balance_loop_cut_alpha_zero[OF l assms(2)])
  ultimately show ?thesis using r by (simp add: calculate_cut_size_def)
qed

theorem io_balancing_alpha_zero_cut_witness:
  "\<exists>run. io_balancing example_externals edge_graph 0 [{1}, {0, 2}] = Some run \<and>
     calculate_cut_size edge_graph (partitions (final run)) \<le> calculate_cut_size edge_graph [{1}, {0, 2}] \<and>
     calculate_cut_size edge_graph [{1}, {0, 2}] = 1"
proof -
  have "calculate_cut_size edge_graph [{1}, {0, 2}] = 1" by code_simp
  then show ?thesis
    using io_balancing_alpha_zero_cut[OF wf_edge_graph valid_iteration_example partition_edge_graph]
    by simp
qed


subsection \<open>Adjacent partitions\<close>

lemma in_concat_mapI: "x \<in> set (f y) \<Longrightarrow> y \<in> set xs \<Longrightarrow> x \<in> set (concat (map f xs))"
  by auto

lemma adj_pairs_iff:
  "(i, j) \<in> adj_pairs g parts \<longleftrightarrow>
     i < j \<and> j < length parts \<and> is_adjacent g (parts ! i) (parts ! j)"
proof
  assume "(i, j) \<in> adj_pairs g parts"
  then obtain a A b B where a: "(a, A) \<in> set (enumerate 0 parts)"
    and b: "(b, B) \<in> set (enumerate 0 parts)"
    and m: "(i, j) \<in> set (if a \<ge> b then [] else if is_adjacent g A B then [(a, b)] else [])"
    unfolding adj_pairs_def by auto
  have "a < b" "is_adjacent g A B" "i = a" "j = b"
    using m by (auto split: if_splits)
  moreover have "b < length parts" "A = parts ! a" "B = parts ! b"
    using a b by (auto simp: in_set_enumerate_eq)
  ultimately show "i < j \<and> j < length parts \<and> is_adjacent g (parts ! i) (parts ! j)"
    by simp
next
  assume h: "i < j \<and> j < length parts \<and> is_adjacent g (parts ! i) (parts ! j)"
  have ei: "(i, parts ! i) \<in> set (enumerate 0 parts)"
    and ej: "(j, parts ! j) \<in> set (enumerate 0 parts)"
    using h by (auto simp: in_set_enumerate_eq)
  let ?inner = "\<lambda>a A. (\<lambda>(b, B). if a \<ge> b then []
                          else if is_adjacent g A B then [(a, b)] else [])"
  let ?outer = "\<lambda>(a, A). concat (map (?inner a A) (enumerate 0 parts))"
  have "(i, j) \<in> set (?inner i (parts ! i) (j, parts ! j))" using h by simp
  then have "(i, j) \<in> set (concat (map (?inner i (parts ! i)) (enumerate 0 parts)))"
    using ej by (rule in_concat_mapI)
  then have "(i, j) \<in> set (?outer (i, parts ! i))" by simp
  then have "(i, j) \<in> set (concat (map ?outer (enumerate 0 parts)))"
    using ei by (rule in_concat_mapI)
  then show "(i, j) \<in> adj_pairs g parts" unfolding adj_pairs_def .
qed

lemma finite_adj_pairs: "finite (adj_pairs g parts)"
  unfolding adj_pairs_def by (rule finite_set)

lemma in_concat_map_iff: "x \<in> set (concat (map f xs)) \<longleftrightarrow> (\<exists>y\<in>set xs. x \<in> set (f y))"
  by auto

lemma bex_pair: "(\<exists>e\<in>S. P e) \<longleftrightarrow> (\<exists>u v. (u, v) \<in> S \<and> P (u, v))"
  by auto

lemma single_pass_cell:
  fixes m :: "'a \<rightharpoonup> nat"
  shows "(i, j) \<in> set (case (m u, m v) of
            (Some a, Some b) \<Rightarrow> if a \<noteq> b then [(min a b, max a b)] else []
          | _ \<Rightarrow> [])
     \<longleftrightarrow> (\<exists>a b. m u = Some a \<and> m v = Some b \<and> a \<noteq> b \<and> i = min a b \<and> j = max a b)"
  by (cases "m u"; cases "m v") auto

lemma spec_single_pass_iff:
  "(i, j) \<in> spec_single_pass_adjacency g parts \<longleftrightarrow>
     (\<exists>u v a b. (u, v) \<in> set (edges g) \<and> node_to_partition_of parts u = Some a \<and>
        node_to_partition_of parts v = Some b \<and> a \<noteq> b \<and> i = min a b \<and> j = max a b)"
proof -
  let ?m = "node_to_partition_of parts"
  let ?cell = "\<lambda>(u, v). case (?m u, ?m v) of
            (Some a, Some b) \<Rightarrow> if a \<noteq> b then [(min a b, max a b)] else []
          | _ \<Rightarrow> []"
  have cell: "\<And>u v. (i, j) \<in> set (?cell (u, v)) \<longleftrightarrow>
        (\<exists>a b. ?m u = Some a \<and> ?m v = Some b \<and> a \<noteq> b \<and> i = min a b \<and> j = max a b)"
    using single_pass_cell[of i j ?m] by simp
  have "(i, j) \<in> spec_single_pass_adjacency g parts \<longleftrightarrow>
        (\<exists>e\<in>set (edges g). (i, j) \<in> set (?cell e))"
    unfolding spec_single_pass_adjacency_def Let_def by (rule in_concat_map_iff)
  also have "\<dots> \<longleftrightarrow> (\<exists>u v. (u, v) \<in> set (edges g) \<and> (i, j) \<in> set (?cell (u, v)))"
    by (rule bex_pair)
  also have "\<dots> \<longleftrightarrow> (\<exists>u v. (u, v) \<in> set (edges g) \<and>
        (\<exists>a b. ?m u = Some a \<and> ?m v = Some b \<and> a \<noteq> b \<and> i = min a b \<and> j = max a b))"
    by (simp only: cell)
  finally show ?thesis by blast
qed

lemma adj_pairs_single_pass:
  assumes "pairwise_disjoint parts"
  shows "adj_pairs g parts = spec_single_pass_adjacency g parts"
proof (intro set_eqI iffI)
  fix p assume p: "p \<in> adj_pairs g parts"
  obtain i j where ij: "p = (i, j)" by (cases p) auto
  then have h: "i < j" "j < length parts" "is_adjacent g (parts ! i) (parts ! j)"
    using p by (simp_all add: adj_pairs_iff)
  then obtain u v where uv: "u \<in> parts ! i" "v \<in> parts ! j"
    "(u, v) \<in> set (edges g) \<or> (v, u) \<in> set (edges g)"
    unfolding is_adjacent_def has_edge_def by blast
  have mu: "node_to_partition_of parts u = Some i"
    using node_to_partition_of_in[OF assms _ uv(1)] h by simp
  have mv: "node_to_partition_of parts v = Some j"
    using node_to_partition_of_in[OF assms h(2) uv(2)] by simp
  from uv(3) show "p \<in> spec_single_pass_adjacency g parts"
  proof
    assume "(u, v) \<in> set (edges g)"
    then have "(i, j) \<in> spec_single_pass_adjacency g parts"
      unfolding spec_single_pass_iff using mu mv h(1)
      by (intro exI[of _ u] exI[of _ v] exI[of _ i] exI[of _ j]) simp
    then show ?thesis using ij by simp
  next
    assume "(v, u) \<in> set (edges g)"
    then have "(i, j) \<in> spec_single_pass_adjacency g parts"
      unfolding spec_single_pass_iff using mu mv h(1)
      by (intro exI[of _ v] exI[of _ u] exI[of _ j] exI[of _ i]) simp
    then show ?thesis using ij by simp
  qed
next
  fix p assume p: "p \<in> spec_single_pass_adjacency g parts"
  obtain i j where ij: "p = (i, j)" by (cases p) auto
  then have "(i, j) \<in> spec_single_pass_adjacency g parts" using p by simp
  then obtain u v a b where e: "(u, v) \<in> set (edges g)"
    and m: "node_to_partition_of parts u = Some a" "node_to_partition_of parts v = Some b"
    and ab: "a \<noteq> b" "i = min a b" "j = max a b"
    by (auto simp: spec_single_pass_iff)
  have ua: "a < length parts" "u \<in> parts ! a" and vb: "b < length parts" "v \<in> parts ! b"
    using m by (simp_all add: node_to_partition_of_iff[OF assms])
  have "(i, j) \<in> adj_pairs g parts"
  proof (cases "a < b")
    case True
    then have "i = a" "j = b" using ab by simp_all
    then show ?thesis unfolding adj_pairs_iff is_adjacent_def has_edge_def
      using True ua vb e by blast
  next
    case False
    then have "b < a" using ab(1) by simp
    then have "i = b" "j = a" using ab by simp_all
    then show ?thesis unfolding adj_pairs_iff is_adjacent_def has_edge_def
      using \<open>b < a\<close> ua vb e by blast
  qed
  then show "p \<in> adj_pairs g parts" using ij by simp
qed

text \<open>
  Claim C3, amended. \<^verbatim>\<open>_find_adjacent_partitions\<close> returns exactly the pairs \<open>(i, j)\<close> with
  \<open>i < j\<close> such that an edge, in either direction, joins a node of partition \<open>i\<close> and a node
  of partition \<open>j\<close>. On pairwise disjoint partitions this is the set that the single pass
  over the edges of the specification records. The code does not make that pass: it
  tests the pairs of \<^verbatim>\<open>itertools.product(part_A, part_B)\<close> for every \<open>i < j\<close>.
\<close>

theorem find_adjacent_partitions_pairs:
  assumes "valid_iteration ext"
  shows "set (find_adjacent_partitions ext g parts) =
           {(i, j). i < j \<and> j < length parts \<and>
              (\<exists>u\<in>parts ! i. \<exists>v\<in>parts ! j. (u, v) \<in> set (edges g) \<or> (v, u) \<in> set (edges g))} \<and>
         (pairwise_disjoint parts \<longrightarrow>
            set (find_adjacent_partitions ext g parts) = spec_single_pass_adjacency g parts)"
proof -
  have s: "set (find_adjacent_partitions ext g parts) = adj_pairs g parts"
    using assms finite_adj_pairs[of g parts]
    by (simp add: find_adjacent_partitions_def valid_iteration_def iterates_set)
  have "adj_pairs g parts =
          {(i, j). i < j \<and> j < length parts \<and> is_adjacent g (parts ! i) (parts ! j)}"
    by (auto simp: adj_pairs_iff)
  then have "adj_pairs g parts = {(i, j). i < j \<and> j < length parts \<and>
              (\<exists>u\<in>parts ! i. \<exists>v\<in>parts ! j. (u, v) \<in> set (edges g) \<or> (v, u) \<in> set (edges g))}"
    by (simp add: is_adjacent_def has_edge_def)
  then show ?thesis using s adj_pairs_single_pass[of parts g] by simp
qed

theorem find_adjacent_partitions_pairs_witness:
  "set (find_adjacent_partitions example_externals path_graph [{0, 1}, {2, 3}]) = {(0, 1)} \<and>
   spec_single_pass_adjacency path_graph [{0, 1}, {2, 3}] = {(0, 1)}"
proof -
  have d: "pairwise_disjoint [{0::nat, 1}, {2, 3}]" by (simp add: pairwise_disjoint_def)
  have e: "spec_single_pass_adjacency path_graph [{0, 1}, {2, 3}] = {(0, 1)}" by code_simp
  have "set (find_adjacent_partitions example_externals path_graph [{0, 1}, {2, 3}])
          = spec_single_pass_adjacency path_graph [{0, 1}, {2, 3}]"
    using find_adjacent_partitions_pairs[OF valid_iteration_example, of path_graph "[{0, 1}, {2, 3}]"] d
    by (elim conjE) (rule mp)
  then show ?thesis using e by simp
qed

text \<open>The work of the code is not bounded by the number of edges: on a graph without
  edges it tests the four pairs of \<open>{0, 1} \<times> {2, 3}\<close>.\<close>

theorem find_adjacent_partitions_cross_product:
  "length (edges edgeless_graph) = 0 \<and>
   find_adjacent_probes example_externals edgeless_graph [{0, 1}, {2, 3}] = 4"
  by code_simp

subsection \<open>Coarse partitions and pairwise refinement\<close>

lemma Union_set_nth: "x \<in> \<Union> (set ps) \<longleftrightarrow> (\<exists>k<length ps. x \<in> ps ! k)"
proof
  assume "x \<in> \<Union> (set ps)"
  then obtain X where "X \<in> set ps" "x \<in> X" by auto
  then show "\<exists>k<length ps. x \<in> ps ! k" by (auto simp: in_set_conv_nth)
next
  assume "\<exists>k<length ps. x \<in> ps ! k"
  then show "x \<in> \<Union> (set ps)" by (meson UnionI nth_mem)
qed

lemma Union_set_nthE:
  assumes "x \<in> \<Union> (set ps)"
  obtains k where "k < length ps" "x \<in> ps ! k"
  using assms unfolding Union_set_nth by blast

lemma Union_set_nthI: "k < length ps \<Longrightarrow> x \<in> ps ! k \<Longrightarrow> x \<in> \<Union> (set ps)"
  unfolding Union_set_nth by blast

lemma assign_labels_length:
  "assign_labels ns ls parts = Some parts' \<Longrightarrow> length parts' = length parts"
  by (induction ns ls parts rule: assign_labels.induct) (auto split: if_splits)

lemma assign_labels_total:
  "length ls = length ns \<Longrightarrow> (\<And>l. l \<in> set ls \<Longrightarrow> l < length parts) \<Longrightarrow>
   \<exists>parts'. assign_labels ns ls parts = Some parts'"
proof (induction ns ls parts rule: assign_labels.induct)
  case (1 ls parts)
  then show ?case by simp
next
  case (2 n ns parts)
  then show ?case by simp
next
  case (3 n ns l ls parts)
  have l: "l < length parts" using "3.prems"(2) by simp
  have "\<exists>parts'. assign_labels ns ls (parts[l := insert n (parts ! l)]) = Some parts'"
  proof (rule "3.IH"[OF l])
    show "length ls = length ns" using "3.prems"(1) by simp
  next
    fix l' assume "l' \<in> set ls"
    then show "l' < length (parts[l := insert n (parts ! l)])" using "3.prems"(2) by simp
  qed
  then show ?case using l by simp
qed

lemma insert_nth_disjoint:
  assumes "pairwise_disjoint parts" "l < length parts" "n \<notin> \<Union> (set parts)"
  shows "pairwise_disjoint (parts[l := insert n (parts ! l)])"
proof (rule pairwise_disjointI)
  fix i j assume ij: "i < j" "j < length (parts[l := insert n (parts ! l)])"
  then have len: "i < length parts" "j < length parts" "i \<noteq> j" by simp_all
  have d: "parts ! i \<inter> parts ! j = {}" by (rule pairwise_disjoint_nth[OF assms(1) len])
  have "n \<notin> parts ! i" "n \<notin> parts ! j"
    using assms(3) Union_set_nthI[OF len(1), of n] Union_set_nthI[OF len(2), of n] by blast+
  then show "parts[l := insert n (parts ! l)] ! i \<inter> parts[l := insert n (parts ! l)] ! j = {}"
    using d len assms(2) by (auto simp: nth_list_update)
qed

lemma insert_nth_union:
  assumes "l < length parts"
  shows "\<Union> (set (parts[l := insert n (parts ! l)])) = insert n (\<Union> (set parts))"
proof (intro set_eqI iffI)
  fix x assume "x \<in> \<Union> (set (parts[l := insert n (parts ! l)]))"
  then obtain k where k: "k < length parts" "x \<in> parts[l := insert n (parts ! l)] ! k"
    by (elim Union_set_nthE) simp
  then have "x = n \<or> x \<in> parts ! k" using assms by (auto simp: nth_list_update split: if_splits)
  then show "x \<in> insert n (\<Union> (set parts))" using Union_set_nthI[OF k(1), of x] by blast
next
  fix x assume "x \<in> insert n (\<Union> (set parts))"
  then have "x = n \<or> x \<in> \<Union> (set parts)" by simp
  then consider "x = n" | k where "k < length parts" "x \<in> parts ! k"
    using Union_set_nthE[of x parts] by blast
  then show "x \<in> \<Union> (set (parts[l := insert n (parts ! l)]))"
  proof cases
    case 1
    then have "x \<in> parts[l := insert n (parts ! l)] ! l" using assms by simp
    then show ?thesis using assms by (intro Union_set_nthI[of l]) simp_all
  next
    case 2
    then have "x \<in> parts[l := insert n (parts ! l)] ! k"
      using assms by (auto simp: nth_list_update)
    then show ?thesis using 2(1) by (intro Union_set_nthI[of k]) simp_all
  qed
qed

lemma assign_labels_partition:
  "assign_labels ns ls parts = Some parts' \<Longrightarrow> distinct ns \<Longrightarrow> pairwise_disjoint parts \<Longrightarrow>
   set ns \<inter> \<Union> (set parts) = {} \<Longrightarrow>
   pairwise_disjoint parts' \<and> \<Union> (set parts') = \<Union> (set parts) \<union> set ns"
proof (induction ns ls parts rule: assign_labels.induct)
  case (1 ls parts)
  then show ?case by simp
next
  case (2 n ns parts)
  then show ?case by simp
next
  case (3 n ns l ls parts)
  have l: "l < length parts" using "3.prems"(1) by (auto split: if_splits)
  let ?p = "parts[l := insert n (parts ! l)]"
  have a: "assign_labels ns ls ?p = Some parts'" using "3.prems"(1) l by simp
  have n: "n \<notin> \<Union> (set parts)" using "3.prems"(4) by auto
  have d: "pairwise_disjoint ?p" by (rule insert_nth_disjoint[OF "3.prems"(3) l n])
  have u: "\<Union> (set ?p) = insert n (\<Union> (set parts))" by (rule insert_nth_union[OF l])
  have i: "set ns \<inter> \<Union> (set ?p) = {}" using u "3.prems"(2,4) by auto
  have "pairwise_disjoint parts' \<and> \<Union> (set parts') = \<Union> (set ?p) \<union> set ns"
    using "3.IH"[OF l a _ d i] "3.prems"(2) by simp
  then show ?case using u by auto
qed

lemma pairwise_disjoint_replicate: "pairwise_disjoint (replicate k {})"
  by (rule pairwise_disjointI) simp

lemma coarse_partition:
  assumes "wf_graph g" "assign_labels (nodes g) ls (replicate k {}) = Some coarse"
  shows "is_partition_of g coarse" "length coarse = k"
proof -
  have "distinct (nodes g)" using assms(1) by (simp add: wf_graph_def)
  moreover have "set (nodes g) \<inter> \<Union> (set (replicate k ({}::'a set))) = {}" by auto
  ultimately have "pairwise_disjoint coarse \<and>
      \<Union> (set coarse) = \<Union> (set (replicate k ({}::'a set))) \<union> set (nodes g)"
    using assign_labels_partition[OF assms(2) _ pairwise_disjoint_replicate] by blast
  then show "is_partition_of g coarse" by (auto simp: is_partition_of_def)
  show "length coarse = k" using assign_labels_length[OF assms(2)] by simp
qed

lemma refine_pairs_length:
  "refine_pairs ext g it ps parts = Some parts' \<Longrightarrow> length parts' = length parts"
  by (induction ext g it ps parts rule: refine_pairs.induct)
     (auto simp: Let_def split: if_splits)

text \<open>Two partitions are replaced by a bisection of their union.\<close>

lemma replace_two_partition:
  assumes "is_partition_of g parts" "i < j" "j < length parts"
    and "A \<union> B = parts ! i \<union> parts ! j" "A \<inter> B = {}"
  shows "is_partition_of g ((parts[i := A])[j := B])"
proof -
  let ?q = "(parts[i := A])[j := B]"
  have d: "pairwise_disjoint parts" and u: "\<Union> (set parts) = set (nodes g)"
    using assms(1) by (simp_all add: is_partition_of_def)
  have i: "i < length parts" "i \<noteq> j" using assms(2,3) by simp_all
  have nth: "\<And>k. k < length parts \<Longrightarrow>
      ?q ! k = (if k = j then B else if k = i then A else parts ! k)"
    by (simp add: nth_list_update)
  have other: "\<And>k. k < length parts \<Longrightarrow> k \<noteq> i \<Longrightarrow> k \<noteq> j \<Longrightarrow>
      parts ! k \<inter> (A \<union> B) = {}"
  proof -
    fix k assume k: "k < length parts" "k \<noteq> i" "k \<noteq> j"
    have "parts ! k \<inter> parts ! i = {}" "parts ! k \<inter> parts ! j = {}"
      using pairwise_disjoint_nth[OF d k(1) i(1) k(2)]
        pairwise_disjoint_nth[OF d k(1) assms(3) k(3)] by simp_all
    then show "parts ! k \<inter> (A \<union> B) = {}" using assms(4) by auto
  qed
  have dq: "pairwise_disjoint ?q"
  proof (rule pairwise_disjointI)
    fix a b assume ab: "a < b" "b < length ?q"
    then have len: "a < length parts" "b < length parts" "a \<noteq> b" by simp_all
    have dab: "parts ! a \<inter> parts ! b = {}" by (rule pairwise_disjoint_nth[OF d len])
    show "?q ! a \<inter> ?q ! b = {}"
    proof (cases "a = i \<or> a = j")
      case True
      note a = this
      show ?thesis
      proof (cases "b = i \<or> b = j")
        case True
        then show ?thesis using a len assms(5) nth[OF len(1)] nth[OF len(2)] i by auto
      next
        case False
        then have "parts ! b \<inter> (A \<union> B) = {}" using other[OF len(2)] by simp
        then show ?thesis using a False nth[OF len(1)] nth[OF len(2)] by auto
      qed
    next
      case False
      then have oa: "parts ! a \<inter> (A \<union> B) = {}" using other[OF len(1)] by simp
      show ?thesis
      proof (cases "b = i \<or> b = j")
        case True
        then show ?thesis using oa False nth[OF len(1)] nth[OF len(2)] by auto
      next
        case b: False
        then show ?thesis using dab False nth[OF len(1)] nth[OF len(2)] by simp
      qed
    qed
  qed
  have uq: "\<Union> (set ?q) = \<Union> (set parts)"
  proof (intro set_eqI iffI)
    fix x assume "x \<in> \<Union> (set ?q)"
    then obtain k where k: "k < length parts" "x \<in> ?q ! k" by (elim Union_set_nthE) simp
    then have "x \<in> A \<union> B \<or> x \<in> parts ! k" using nth[OF k(1)] by (auto split: if_splits)
    then have "x \<in> parts ! i \<or> x \<in> parts ! j \<or> x \<in> parts ! k" using assms(4) by auto
    then show "x \<in> \<Union> (set parts)"
      using Union_set_nthI[OF k(1), of x] Union_set_nthI[OF i(1), of x]
        Union_set_nthI[OF assms(3), of x] by blast
  next
    fix x assume "x \<in> \<Union> (set parts)"
    then obtain k where k: "k < length parts" "x \<in> parts ! k" by (elim Union_set_nthE)
    have lq: "length ?q = length parts" by simp
    show "x \<in> \<Union> (set ?q)"
    proof (cases "k = i \<or> k = j")
      case True
      then have "x \<in> A \<union> B" using k(2) assms(4) by auto
      then have "x \<in> ?q ! i \<or> x \<in> ?q ! j" using nth[OF i(1)] nth[OF assms(3)] i(2) by auto
      then show ?thesis
        using Union_set_nthI[of i ?q x] Union_set_nthI[of j ?q x] i(1) assms(3) lq by auto
    next
      case False
      then have "x \<in> ?q ! k" using nth[OF k(1)] k(2) by simp
      then show ?thesis using Union_set_nthI[of k ?q x] k(1) lq by auto
    qed
  qed
  show ?thesis using dq uq u by (simp add: is_partition_of_def)
qed

lemma subgraph_nodes:
  "set (nodes (subgraph g ns)) = set (nodes g) \<inter> set ns"
  by (auto simp: subgraph_def)

lemma refine_pairs_partition:
  assumes "kl_contract ext g" "valid_iteration ext"
  shows "is_partition_of g parts \<Longrightarrow> (\<And>i j. (i, j) \<in> set ps \<Longrightarrow> i < j \<and> j < length parts) \<Longrightarrow>
         \<exists>parts'. refine_pairs ext g it ps parts = Some parts' \<and> is_partition_of g parts'"
proof (induction ps arbitrary: parts)
  case Nil
  then show ?case by simp
next
  case (Cons p ps)
  obtain i j where p: "p = (i, j)" by (cases p) auto
  have ij: "i < j" "j < length parts" using Cons.prems(2)[of i j] p by simp_all
  then have i: "i < length parts" by simp
  let ?S = "parts ! i \<union> parts ! j"
  let ?sub = "subgraph g (iter_nodes ext ?S)"
  let ?r = "kernighan_lin_bisection ext ?sub it"
  have u: "\<Union> (set parts) = set (nodes g)" using Cons.prems(1) by (simp add: is_partition_of_def)
  have sub: "?S \<subseteq> set (nodes g)"
    using u i ij(2) by (metis Un_least Union_upper nth_mem)
  then have fin: "finite ?S" by (rule finite_subset) simp
  have "iterates (iter_nodes ext)" using assms(2) by (simp add: valid_iteration_def)
  then have "set (iter_nodes ext ?S) = ?S" using fin by (rule iterates_set)
  then have "set (nodes ?sub) = ?S" using sub by (auto simp: subgraph_nodes)
  then have r: "fst ?r \<union> snd ?r = ?S" "fst ?r \<inter> snd ?r = {}"
    using assms(1) unfolding kl_contract_def by metis+
  have q: "is_partition_of g ((parts[i := fst ?r])[j := snd ?r])"
    by (rule replace_two_partition[OF Cons.prems(1) ij r])
  have "\<exists>parts'. refine_pairs ext g it ps ((parts[i := fst ?r])[j := snd ?r]) = Some parts'
          \<and> is_partition_of g parts'"
  proof (rule Cons.IH[OF q])
    fix a b assume "(a, b) \<in> set ps"
    then show "a < b \<and> b < length ((parts[i := fst ?r])[j := snd ?r])"
      using Cons.prems(2)[of a b] by simp
  qed
  then show ?case using i ij p by (simp add: Let_def)
qed

subsection \<open>The whole partitioner\<close>

lemma labels_contract_example: "labels_contract example_externals g"
  unfolding labels_contract_def example_externals_def by (auto split: if_splits)

lemma kl_contract_example: "kl_contract example_externals g"
  unfolding kl_contract_def example_externals_def by auto

lemma partition_count_pos:
  assumes "nodes g \<noteq> []" "0 < t"
  shows "\<exists>k. partition_count g t = Some k \<and> 1 \<le> k"
proof -
  have "0 < real (number_of_nodes g) / real_of_int t"
    using assms by (simp add: number_of_nodes_def)
  then have "0 < \<lceil>real (number_of_nodes g) / real_of_int t\<rceil>" by simp
  then show ?thesis using assms(2) by (simp add: partition_count_def)
qed

lemma filter_nonempty_partition:
  assumes "pairwise_disjoint ps"
  shows "pairwise_disjoint (filter (\<lambda>p. p \<noteq> {}) ps)"
    and "\<Union> (set (filter (\<lambda>p. p \<noteq> {}) ps)) = \<Union> (set ps)"
    and "\<forall>p\<in>set (filter (\<lambda>p. p \<noteq> {}) ps). p \<noteq> {}"
proof -
  show "pairwise_disjoint (filter (\<lambda>p. p \<noteq> {}) ps)"
    using assms unfolding pairwise_disjoint_def by (rule sorted_wrt_filter)
  show "\<Union> (set (filter (\<lambda>p. p \<noteq> {}) ps)) = \<Union> (set ps)" by auto
  show "\<forall>p\<in>set (filter (\<lambda>p. p \<noteq> {}) ps). p \<noteq> {}" by simp
qed

text \<open>The phases, when the partition count is two or more.\<close>

lemma hybrid_partitioner_phases:
  assumes "partition_count g t = Some k" "\<not> k < 2" "nodes g \<noteq> []"
  shows "hybrid_partitioner ext g t it \<alpha> =
     (case fit_predict ext g (nat k) of
        None \<Rightarrow> None
      | Some labels \<Rightarrow>
          (case assign_labels (nodes g) labels (replicate (nat k) {}) of
             None \<Rightarrow> None
           | Some coarse \<Rightarrow>
               (case refine_pairs ext g it (find_adjacent_partitions ext g coarse) coarse of
                  None \<Rightarrow> None
                | Some refined \<Rightarrow>
                    (case io_balancing ext g \<alpha> refined of
                       None \<Rightarrow> None
                     | Some run \<Rightarrow> Some (filter (\<lambda>p. p \<noteq> {}) (partitions (final run)))))))"
  using assms by (simp add: hybrid_partitioner_def number_of_nodes_def)

lemma three_phases_length:
  assumes "partition_count g t = Some k" "\<not> k < 2" "nodes g \<noteq> []"
    and "hybrid_partitioner ext g t it \<alpha> = Some ps"
  shows "length ps \<le> nat k"
proof -
  obtain labels coarse refined run where
    c: "assign_labels (nodes g) labels (replicate (nat k) {}) = Some coarse"
    and r: "refine_pairs ext g it (find_adjacent_partitions ext g coarse) coarse = Some refined"
    and b: "io_balancing ext g \<alpha> refined = Some run"
    and p: "ps = filter (\<lambda>p. p \<noteq> {}) (partitions (final run))"
    using assms(4) unfolding hybrid_partitioner_phases[OF assms(1,2,3)]
    by (auto split: option.splits)
  have "length coarse = nat k" using assign_labels_length[OF c] by simp
  then have "length refined = nat k" using refine_pairs_length[OF r] by simp
  then have "length (partitions (final run)) = nat k"
    using io_balance_loop_length[OF b[unfolded io_balancing_def]] by simp
  then show ?thesis using p length_filter_le[of "\<lambda>p. p \<noteq> {}" "partitions (final run)"] by simp
qed

lemma three_phases_partition:
  assumes "wf_graph g" "valid_iteration ext" "labels_contract ext g" "kl_contract ext g"
    and "partition_count g t = Some k" "\<not> k < 2" "nodes g \<noteq> []"
    and "fit_predict ext g (nat k) = Some labels"
  shows "\<exists>ps. hybrid_partitioner ext g t it \<alpha> = Some ps \<and> (\<forall>p\<in>set ps. p \<noteq> {}) \<and>
           pairwise_disjoint ps \<and> \<Union> (set ps) = set (nodes g)"
proof -
  have lab: "length labels = length (nodes g)"
    "\<And>l. l \<in> set labels \<Longrightarrow> l < length (replicate (nat k) ({}::'a set))"
    using assms(3,8) unfolding labels_contract_def by auto
  have "\<exists>parts'. assign_labels (nodes g) labels (replicate (nat k) {}) = Some parts'"
    by (rule assign_labels_total[OF lab(1)]) (rule lab(2))
  then obtain coarse where
    c: "assign_labels (nodes g) labels (replicate (nat k) {}) = Some coarse"
    by (elim exE)
  have pc: "is_partition_of g coarse" by (rule coarse_partition(1)[OF assms(1) c])
  have adj: "\<And>i j. (i, j) \<in> set (find_adjacent_partitions ext g coarse) \<Longrightarrow>
      i < j \<and> j < length coarse"
  proof -
    fix i j assume "(i, j) \<in> set (find_adjacent_partitions ext g coarse)"
    then have "(i, j) \<in> adj_pairs g coarse"
      using assms(2) finite_adj_pairs[of g coarse]
      by (simp add: find_adjacent_partitions_def valid_iteration_def iterates_set)
    then show "i < j \<and> j < length coarse" by (simp add: adj_pairs_iff)
  qed
  have "\<exists>parts'. refine_pairs ext g it (find_adjacent_partitions ext g coarse) coarse
          = Some parts' \<and> is_partition_of g parts'"
    by (rule refine_pairs_partition[OF assms(4,2) pc]) (rule adj)
  then obtain refined where
    r: "refine_pairs ext g it (find_adjacent_partitions ext g coarse) coarse = Some refined"
    and pr: "is_partition_of g refined"
    by (elim exE conjE)
  from io_balancing_total[OF assms(1,2) pr, of \<alpha>] obtain run where
    b: "io_balancing ext g \<alpha> refined = Some run"
    by (elim exE)
  have d: "pairwise_disjoint refined" and u: "\<Union> (set refined) = set (nodes g)"
    using pr by (simp_all add: is_partition_of_def)
  have "consistent (final run)" "\<Union> (set (partitions (final run))) = \<Union> (set refined)"
    using io_balance_loop_consistent[OF b[unfolded io_balancing_def] consistent_initial[OF d]]
    by simp_all
  then have f: "pairwise_disjoint (partitions (final run))"
    "\<Union> (set (partitions (final run))) = set (nodes g)"
    using consistent_disjoint[of "final run"] u by simp_all
  have h: "hybrid_partitioner ext g t it \<alpha> = Some (filter (\<lambda>p. p \<noteq> {}) (partitions (final run)))"
    unfolding hybrid_partitioner_phases[OF assms(5,6,7)] using assms(8) c r b by simp
  note fp = filter_nonempty_partition[OF f(1)]
  show ?thesis
  proof (intro exI conjI)
    show "hybrid_partitioner ext g t it \<alpha> = Some (filter (\<lambda>p. p \<noteq> {}) (partitions (final run)))"
      by (rule h)
    show "\<forall>p\<in>set (filter (\<lambda>p. p \<noteq> {}) (partitions (final run))). p \<noteq> {}" by (rule fp(3))
    show "pairwise_disjoint (filter (\<lambda>p. p \<noteq> {}) (partitions (final run)))" by (rule fp(1))
    show "\<Union> (set (filter (\<lambda>p. p \<noteq> {}) (partitions (final run)))) = set (nodes g)"
      using fp(2) f(2) by (rule trans)
  qed
qed

text \<open>When the clustering returns (with one label below \<open>k\<close> per node), the partitioner
  returns non-empty, pairwise disjoint sets whose union is the set of nodes: on a
  well-formed graph, for a target size other than \<open>0\<close>, any bisection the library gives and
  any iteration order of the sets.\<close>

lemma hybrid_partitioner_partition:
  assumes "wf_graph g" "target_partition_size \<noteq> 0"
    and "valid_iteration ext" "labels_contract ext g" "kl_contract ext g"
    and "clustering_returns ext g target_partition_size"
  shows "\<exists>ps. hybrid_partitioner ext g target_partition_size kl_max_iter io_balance_alpha = Some ps \<and>
           (\<forall>p\<in>set ps. p \<noteq> {}) \<and> pairwise_disjoint ps \<and> \<Union> (set ps) = set (nodes g)"
proof (cases "nodes g = []")
  case True
  then show ?thesis
    by (simp add: hybrid_partitioner_def number_of_nodes_def pairwise_disjoint_def)
next
  case False
  obtain k where k: "partition_count g target_partition_size = Some k"
    using assms(2) by (simp add: partition_count_def)
  show ?thesis
  proof (cases "k < 2")
    case True
    then have "hybrid_partitioner ext g target_partition_size kl_max_iter io_balance_alpha
               = Some [set (nodes g)]"
      using False k by (simp add: hybrid_partitioner_def number_of_nodes_def)
    then show ?thesis using False by (simp add: pairwise_disjoint_def)
  next
    case k2: False
    then obtain labels where l: "fit_predict ext g (nat k) = Some labels"
      using assms(6) k unfolding clustering_returns_def by auto
    show ?thesis by (rule three_phases_partition[OF assms(1,3,4,5) k k2 False l])
  qed
qed

text \<open>When the clustering raises, so does the partitioner. With a target size of \<open>1\<close> the
  file asks for as many clusters as the graph has nodes.\<close>

lemma hybrid_partitioner_clustering_raises:
  assumes "nodes g \<noteq> []" "partition_count g target_partition_size = Some k" "2 \<le> k"
    and "fit_predict ext g (nat k) = None"
  shows "hybrid_partitioner ext g target_partition_size kl_max_iter io_balance_alpha = None"
proof -
  have "\<not> k < 2" using assms(3) by simp
  from hybrid_partitioner_phases[OF assms(2) this assms(1)] assms(4)
  show ?thesis by simp
qed

lemma partition_count_one: "partition_count g 1 = Some (int (number_of_nodes g))"
  by (simp add: partition_count_def)

lemma hybrid_partitioner_size_one_raises:
  assumes "2 \<le> number_of_nodes g" "fit_predict ext g (number_of_nodes g) = None"
  shows "hybrid_partitioner ext g 1 kl_max_iter io_balance_alpha = None"
proof -
  have n: "nodes g \<noteq> []" using assms(1) by (auto simp: number_of_nodes_def)
  have k: "2 \<le> int (number_of_nodes g)" using assms(1) by simp
  have f: "fit_predict ext g (nat (int (number_of_nodes g))) = None" using assms(2) by simp
  show ?thesis by (rule hybrid_partitioner_clustering_raises[OF n partition_count_one k f])
qed

subsection \<open>Claims on the whole partitioner\<close>

text \<open>
  Claim C1. The claim: for every input graph, \<open>hybrid_partitioner\<close> returns a list of
  sets of nodes that are non-empty, pairwise disjoint and whose union is the set of nodes
  of the graph. The code does so whenever the clustering call returns
  (\<open>hybrid_partitioner_partition\<close>), but it calls the clustering without a guard, also for
  as many clusters as there are nodes: on the path of four nodes with a target size of \<open>1\<close>
  it asks for four clusters, the clustering raises and the partitioner returns nothing,
  where a target size of \<open>2\<close> gives one partition of the four nodes.
\<close>

theorem hybrid_partitioner_raises_at_size_one:
  "fit_predict example_externals path_graph 4 = None \<and>
   hybrid_partitioner example_externals path_graph 1 10 0 = None \<and>
   hybrid_partitioner example_externals path_graph 2 10 0 = Some [{0, 1, 2, 3}]"
proof -
  have "fit_predict example_externals path_graph 4 = None"
    by (simp add: example_externals_def path_graph_def)
  moreover have "hybrid_partitioner example_externals path_graph 1 10 0 = None"
    by code_simp
  moreover have "hybrid_partitioner example_externals path_graph 2 10 0 = Some [{0, 1, 2, 3}]"
    by code_simp
  ultimately show ?thesis by simp
qed

text \<open>
  Claim C10. For a non-empty graph and a positive target size, the list that
  \<open>hybrid_partitioner\<close> returns has at most \<open>k = ceil(node_count / target_partition_size)\<close>
  entries: the coarse list has \<open>k\<close> entries, the refinement and the balancing replace
  entries, and the last step drops the empty ones.
\<close>

theorem hybrid_partitioner_count:
  assumes "nodes g \<noteq> []" "0 < target_partition_size"
    and "hybrid_partitioner ext g target_partition_size kl_max_iter io_balance_alpha = Some ps"
  shows "int (length ps) \<le> \<lceil>real (number_of_nodes g) / real_of_int target_partition_size\<rceil>"
proof -
  obtain k where k: "partition_count g target_partition_size = Some k" "1 \<le> k"
    using partition_count_pos[OF assms(1,2)] by blast
  have kc: "k = \<lceil>real (number_of_nodes g) / real_of_int target_partition_size\<rceil>"
    using k(1) assms(2) by (simp add: partition_count_def)
  have "int (length ps) \<le> k"
  proof (cases "k < 2")
    case True
    then have "ps = [set (nodes g)]"
      using assms(1,3) k(1) by (simp add: hybrid_partitioner_def number_of_nodes_def)
    then show ?thesis using k(2) by simp
  next
    case False
    have "length ps \<le> nat k" by (rule three_phases_length[OF k(1) False assms(1,3)])
    then show ?thesis using k(2) by simp
  qed
  then show ?thesis using kc by simp
qed

theorem hybrid_partitioner_count_witness:
  "hybrid_partitioner example_externals edge_graph 2 10 0 = Some [{0, 1}, {2}] \<and>
   int (length [{0::nat, 1}, {2}]) \<le> \<lceil>real (number_of_nodes edge_graph) / real_of_int 2\<rceil>"
proof -
  have e: "hybrid_partitioner example_externals edge_graph 2 10 0 = Some [{0, 1}, {2}]"
    by code_simp
  have n: "nodes edge_graph \<noteq> []" by (simp add: edge_graph_def)
  have "(0::int) < 2" by simp
  from hybrid_partitioner_count[OF n this e] e show ?thesis by simp
qed


end
